theory Spec2Isabelle
  imports Main
begin

section \<open>Path codec\<close>

text \<open>
  The functions \<open>createPath\<close> and \<open>parsePath\<close> of \<open>packages/history/history.ts\<close>.
  A JavaScript string is a sequence of code units; the codec only compares code units with
  \<open>#\<close> and \<open>?\<close>, so a \<open>char list\<close> carries it. An optional property of \<open>PathPieces\<close>
  that is absent is \<open>None\<close>.
\<close>

record PathPieces =
  pp_pathname :: "string option"
  pp_search :: "string option"
  pp_hash :: "string option"

text \<open>\<open>String.prototype.indexOf\<close> with a one-character needle: the first position, or -1.\<close>

fun indexOf :: "string \<Rightarrow> char \<Rightarrow> int" where
  "indexOf [] c = -1"
| "indexOf (x # xs) c =
     (if x = c then 0 else (let i = indexOf xs c in if i < 0 then -1 else i + 1))"

text \<open>\<open>path.substr(start)\<close> and \<open>path.substr(0, len)\<close> for a non-negative argument.\<close>

definition substr_from :: "string \<Rightarrow> int \<Rightarrow> string" where
  "substr_from path start = drop (nat start) path"

definition substr_upto :: "string \<Rightarrow> int \<Rightarrow> string" where
  "substr_upto path len = take (nat len) path"

definition createPath :: "PathPieces \<Rightarrow> string" where
  "createPath pieces =
     (case pp_pathname pieces of None \<Rightarrow> ''/'' | Some p \<Rightarrow> p)
     @ (case pp_search pieces of None \<Rightarrow> [] | Some s \<Rightarrow> s)
     @ (case pp_hash pieces of None \<Rightarrow> [] | Some h \<Rightarrow> h)"

definition parsePath :: "string \<Rightarrow> PathPieces" where
  "parsePath path =
     (if path = [] then \<lparr>pp_pathname = None, pp_search = None, pp_hash = None\<rparr>
      else
        let hashIndex = indexOf path (CHR ''#'');
            hash_piece = (if hashIndex \<ge> 0 then Some (substr_from path hashIndex) else None);
            path1 = (if hashIndex \<ge> 0 then substr_upto path hashIndex else path);
            searchIndex = indexOf path1 (CHR ''?'');
            search_piece = (if searchIndex \<ge> 0 then Some (substr_from path1 searchIndex) else None);
            path2 = (if searchIndex \<ge> 0 then substr_upto path1 searchIndex else path1)
        in \<lparr>pp_pathname = (if path2 \<noteq> [] then Some path2 else None),
            pp_search = search_piece,
            pp_hash = hash_piece\<rparr>)"

section \<open>Locations, actions, updates and transitions\<close>

datatype Action = Pop | Push | Replace

text \<open>
  The opaque \<open>State\<close> object is a type parameter; \<open>undefined\<close> and \<open>null\<close> are \<open>None\<close>.
\<close>

record 's Location =
  pathname :: string
  search :: string
  hash :: string
  state :: "'s option"
  key :: string

text \<open>\<open>type To = Path | PathPieces\<close>, with the fields the type declares.\<close>

datatype To = Path string | Pieces PathPieces

text \<open>
  The \<open>retry\<close> closure of a transition re-invokes the call that built it with the same
  arguments; it is kept as the call it makes.
\<close>

datatype 's Retry = RetryPush To "'s option" | RetryReplace To "'s option" | RetryGo int

text \<open>
  The location of an update is optional because the memory backend passes
  \<open>entries[nextIndex]\<close> on, which is \<open>undefined\<close> when the array is empty.
\<close>

datatype 's Update = Update Action "'s Location option"

datatype 's Transition = Transition Action "'s Location option" "'s Retry"

text \<open>
  \<open>createKey\<close> returns \<open>Math.random().toString(36).substr(2, 8)\<close>. The argument \<open>r\<close> is
  the string \<open>Math.random().toString(36)\<close> of this call, an input of the model.
\<close>

definition createKey :: "string \<Rightarrow> string" where
  "createKey r = take 8 (drop 2 r)"

text \<open>\<open>typeof to === 'string' ? parsePath(to) : to\<close>.\<close>

definition to_pieces :: "To \<Rightarrow> PathPieces" where
  "to_pieces to = (case to of Path p \<Rightarrow> parsePath p | Pieces ps \<Rightarrow> ps)"

text \<open>
  \<open>getNextLocation\<close>: \<open>Object.assign({}, location, pieces, {state, key: createKey()})\<close>.
  A later source overwrites a property only where it has it.
\<close>

definition getNextLocation :: "string \<Rightarrow> 's Location \<Rightarrow> To \<Rightarrow> 's option \<Rightarrow> 's Location" where
  "getNextLocation r current to st =
     (let pieces = to_pieces to in
      \<lparr>pathname = (case pp_pathname pieces of Some v \<Rightarrow> v | None \<Rightarrow> pathname current),
       search = (case pp_search pieces of Some v \<Rightarrow> v | None \<Rightarrow> search current),
       hash = (case pp_hash pieces of Some v \<Rightarrow> v | None \<Rightarrow> hash current),
       state = st,
       key = createKey r\<rparr>)"

section \<open>Event registry\<close>

text \<open>
  \<open>createEvents\<close> holds an array of handlers. A handler is a function value, compared by
  reference: a \<open>handler\<close> is the identity of that reference. \<open>events_push\<close> is the method
  \<open>push\<close>, \<open>events_remove\<close> the function that \<open>push\<close> returns.
\<close>

type_synonym handler = nat

definition createEvents :: "handler list" where
  "createEvents = []"

definition events_length :: "handler list \<Rightarrow> int" where
  "events_length handlers = int (length handlers)"

definition events_push :: "handler \<Rightarrow> handler list \<Rightarrow> handler list" where
  "events_push fn handlers = handlers @ [fn]"

definition events_remove :: "handler \<Rightarrow> handler list \<Rightarrow> handler list" where
  "events_remove fn handlers = filter (\<lambda>handler. handler \<noteq> fn) handlers"

text \<open>
  \<open>call\<close>: \<open>handlers.forEach(fn => fn && fn(arg))\<close>. What a handler does is given by
  \<open>run\<close>: it changes a world \<open>'w\<close> and either returns (\<open>None\<close>) or throws (\<open>Some e\<close>).
  \<open>forEach\<close> has no handler for exceptions, so a throw ends the loop and reaches the caller
  of \<open>call\<close>. The guard \<open>fn &&\<close> is true of every function value.
\<close>

fun call :: "(handler \<Rightarrow> 'a \<Rightarrow> 'w \<Rightarrow> 'w \<times> 'e option) \<Rightarrow> handler list \<Rightarrow> 'a \<Rightarrow> 'w \<Rightarrow> 'w \<times> 'e option" where
  "call run [] arg w = (w, None)"
| "call run (fn # fns) arg w =
     (case run fn arg w of
        (w', Some e) \<Rightarrow> (w', Some e)
      | (w', None) \<Rightarrow> call run fns arg w')"

text \<open>
  A handler that records its invocation in a log, and throws when it belongs to \<open>T\<close>.
\<close>

definition recording :: "handler set \<Rightarrow> handler \<Rightarrow> 'a \<Rightarrow> (handler \<times> 'a) list \<Rightarrow> (handler \<times> 'a) list \<times> unit option" where
  "recording T fn arg lg = (lg @ [(fn, arg)], if fn \<in> T then Some () else None)"

section \<open>Memory history\<close>

text \<open>
  \<open>TypeError\<close> is the exception of reading a property of \<open>undefined\<close> or of calling
  what is no function, \<open>RangeError\<close> the one of exceeding the call stack, and \<open>Thrown\<close>
  an exception that the code of a handler throws. \<open>SparseArray\<close> is no exception of the
  program: it marks an assignment \<open>entries[index] = v\<close> outside the array and its end,
  whose result a list cannot hold. No sequence of calls on a created history reaches it.
\<close>

datatype error = TypeError | SparseArray | RangeError | Thrown

datatype 's event = ListenerCalled handler "'s Update" | BlockerCalled handler "'s Transition"

text \<open>
  The variables closed over by \<open>createMemoryHistory\<close>, and \<open>trace\<close>: the invocations of
  listeners and blockers, in the order they are made.
\<close>

record 's MemoryHistory =
  entries :: "'s Location list"
  index :: int
  action :: Action
  location :: "'s Location option"
  blockers :: "handler list"
  listeners :: "handler list"
  trace :: "'s event list"

definition clamp :: "int \<Rightarrow> int \<Rightarrow> int \<Rightarrow> int" where
  "clamp n lowerBound upperBound = min (max n lowerBound) upperBound"

text \<open>\<open>xs[i]\<close>: \<open>undefined\<close> outside the array.\<close>

definition array_get :: "'a list \<Rightarrow> int \<Rightarrow> 'a option" where
  "array_get xs i = (if 0 \<le> i \<and> i < int (length xs) then Some (xs ! nat i) else None)"

text \<open>
  \<open>xs[i] = v\<close>: overwrites inside the array and appends at its end. Further out the array
  becomes sparse, and a negative \<open>i\<close> names a property that is no element; a list holds
  neither, and the result is \<open>None\<close>.
\<close>

definition array_set :: "'a list \<Rightarrow> int \<Rightarrow> 'a \<Rightarrow> 'a list option" where
  "array_set xs i v =
     (if 0 \<le> i \<and> i < int (length xs) then Some (xs[nat i := v])
      else if i = int (length xs) then Some (xs @ [v])
      else None)"

text \<open>\<open>xs.splice(start, deleteCount, item)\<close>, as ECMAScript defines it; the new array.\<close>

definition splice :: "int \<Rightarrow> int \<Rightarrow> 'a \<Rightarrow> 'a list \<Rightarrow> 'a list" where
  "splice start deleteCount item xs =
     (let len = int (length xs);
          actualStart = (if start < 0 then max (len + start) 0 else min start len);
          actualDeleteCount = min (max deleteCount 0) (len - actualStart)
      in take (nat actualStart) xs @ [item] @ drop (nat (actualStart + actualDeleteCount)) xs)"


text \<open>An entry of \<open>initialEntries\<close>, laid over the defaults.\<close>

definition initial_location :: "string \<Rightarrow> To \<Rightarrow> 's Location" where
  "initial_location r entry =
     (let pieces = to_pieces entry in
      \<lparr>pathname = (case pp_pathname pieces of Some v \<Rightarrow> v | None \<Rightarrow> ''/''),
       search = (case pp_search pieces of Some v \<Rightarrow> v | None \<Rightarrow> []),
       hash = (case pp_hash pieces of Some v \<Rightarrow> v | None \<Rightarrow> []),
       state = None,
       key = createKey r\<rparr>)"

text \<open>
  \<open>createMemoryHistory\<close>. An option that is left out is \<open>None\<close>; \<open>rand i\<close> is the random
  string drawn for the \<open>i\<close>-th entry.
\<close>

definition createMemoryHistory :: "(nat \<Rightarrow> string) \<Rightarrow> To list option \<Rightarrow> int option \<Rightarrow> 's MemoryHistory" where
  "createMemoryHistory rand initialEntriesOpt initialIndexOpt =
     (let initialEntries = (case initialEntriesOpt of None \<Rightarrow> [Path ''/''] | Some es \<Rightarrow> es);
          initialIndex = (case initialIndexOpt of None \<Rightarrow> 0 | Some i \<Rightarrow> i);
          es = map (\<lambda>(i, entry). initial_location (rand i) entry) (enumerate 0 initialEntries);
          i = clamp initialIndex 0 (int (length es) - 1)
      in \<lparr>entries = es, index = i, action = Pop, location = array_get es i,
          blockers = createEvents, listeners = createEvents, trace = []\<rparr>)"

text \<open>
  A listener or a blocker is code of the client. What its invocation does is a parameter
  \<open>R\<close> of every function of the history: given the invocation (the handler and its
  argument) and the history at that moment, the history when the handler is left, and the
  exception if it is left by one. Inside its callback a handler can call the history
  again, register and unregister handlers, call the \<open>retry\<close> it received, or throw; all of
  that is an \<open>R\<close>. A call of the history returns the history it leaves and the exception,
  if any, that leaves it.
\<close>

type_synonym 's invoke = "'s event \<Rightarrow> 's MemoryHistory \<Rightarrow> 's MemoryHistory \<times> error option"

text \<open>The function that \<open>call\<close> applies to each handler: \<open>fn(arg)\<close>, recorded in the trace.\<close>

definition invoke_handler :: "'s invoke \<Rightarrow> (handler \<Rightarrow> 'a \<Rightarrow> 's event) \<Rightarrow> handler \<Rightarrow> 'a \<Rightarrow> 's MemoryHistory \<Rightarrow> 's MemoryHistory \<times> error option" where
  "invoke_handler R mk fn arg h = R (mk fn arg) (h\<lparr>trace := trace h @ [mk fn arg]\<rparr>)"

text \<open>
  \<open>allowTx\<close>: \<open>!blockers.length || (blockers.call({action, location, retry}), false)\<close>.
  The third component is the exception that leaves \<open>blockers.call\<close>.
\<close>

definition allowTx :: "'s invoke \<Rightarrow> Action \<Rightarrow> 's Location option \<Rightarrow> 's Retry \<Rightarrow> 's MemoryHistory \<Rightarrow> bool \<times> 's MemoryHistory \<times> error option" where
  "allowTx R a l retry h =
     (if events_length (blockers h) = 0 then (True, h, None)
      else (let (h1, e) = call (invoke_handler R BlockerCalled) (blockers h) (Transition a l retry) h
            in (False, h1, e)))"

definition applyTx :: "'s invoke \<Rightarrow> Action \<Rightarrow> 's Location option \<Rightarrow> 's MemoryHistory \<Rightarrow> 's MemoryHistory \<times> error option" where
  "applyTx R nextAction nextLocation h =
     (let h1 = h\<lparr>action := nextAction, location := nextLocation\<rparr>
      in call (invoke_handler R ListenerCalled) (listeners h1) (Update (action h1) (location h1)) h1)"

text \<open>
  \<open>push\<close> and \<open>replace\<close> read \<open>location.pathname\<close> for their advisory warning before
  anything else happens; on an \<open>undefined\<close> location that read throws a \<open>TypeError\<close>.
  The warning itself only writes to the console. An exception that leaves \<open>allowTx\<close> or
  \<open>applyTx\<close> leaves the call.
\<close>

definition push :: "'s invoke \<Rightarrow> string \<Rightarrow> To \<Rightarrow> 's option \<Rightarrow> 's MemoryHistory \<Rightarrow> 's MemoryHistory \<times> error option" where
  "push R r to st h =
     (case location h of
        None \<Rightarrow> (h, Some TypeError)
      | Some current \<Rightarrow>
          let nextAction = Push;
              nextLocation = getNextLocation r current to st;
              (allowed, h1, e) = allowTx R nextAction (Some nextLocation) (RetryPush to st) h
          in (case e of
                Some x \<Rightarrow> (h1, Some x)
              | None \<Rightarrow>
                  if allowed then
                    let h2 = h1\<lparr>index := index h1 + 1\<rparr>;
                        h3 = h2\<lparr>entries := splice (index h2) (int (length (entries h2))) nextLocation (entries h2)\<rparr>
                    in applyTx R nextAction (Some nextLocation) h3
                  else (h1, None)))"

definition replace :: "'s invoke \<Rightarrow> string \<Rightarrow> To \<Rightarrow> 's option \<Rightarrow> 's MemoryHistory \<Rightarrow> 's MemoryHistory \<times> error option" where
  "replace R r to st h =
     (case location h of
        None \<Rightarrow> (h, Some TypeError)
      | Some current \<Rightarrow>
          let nextAction = Replace;
              nextLocation = getNextLocation r current to st;
              (allowed, h1, e) = allowTx R nextAction (Some nextLocation) (RetryReplace to st) h
          in (case e of
                Some x \<Rightarrow> (h1, Some x)
              | None \<Rightarrow>
                  if allowed then
                    (case array_set (entries h1) (index h1) nextLocation of
                       None \<Rightarrow> (h1, Some SparseArray)
                     | Some es \<Rightarrow> applyTx R nextAction (Some nextLocation) (h1\<lparr>entries := es\<rparr>))
                  else (h1, None)))"

definition go :: "'s invoke \<Rightarrow> int \<Rightarrow> 's MemoryHistory \<Rightarrow> 's MemoryHistory \<times> error option" where
  "go R n h =
     (let nextIndex = clamp (index h + n) 0 (int (length (entries h)) - 1);
          nextAction = Pop;
          nextLocation = array_get (entries h) nextIndex;
          (allowed, h1, e) = allowTx R nextAction nextLocation (RetryGo n) h
      in (case e of
            Some x \<Rightarrow> (h1, Some x)
          | None \<Rightarrow>
              if allowed then applyTx R nextAction nextLocation (h1\<lparr>index := nextIndex\<rparr>)
              else (h1, None)))"

definition history_back :: "'s invoke \<Rightarrow> 's MemoryHistory \<Rightarrow> 's MemoryHistory \<times> error option" where
  "history_back R h = go R (-1) h"

definition history_forward :: "'s invoke \<Rightarrow> 's MemoryHistory \<Rightarrow> 's MemoryHistory \<times> error option" where
  "history_forward R h = go R 1 h"

definition listen :: "handler \<Rightarrow> 's MemoryHistory \<Rightarrow> 's MemoryHistory" where
  "listen listener h = h\<lparr>listeners := events_push listener (listeners h)\<rparr>"

definition unlisten :: "handler \<Rightarrow> 's MemoryHistory \<Rightarrow> 's MemoryHistory" where
  "unlisten listener h = h\<lparr>listeners := events_remove listener (listeners h)\<rparr>"

definition block :: "handler \<Rightarrow> 's MemoryHistory \<Rightarrow> 's MemoryHistory" where
  "block blocker h = h\<lparr>blockers := events_push blocker (blockers h)\<rparr>"

definition unblock :: "handler \<Rightarrow> 's MemoryHistory \<Rightarrow> 's MemoryHistory" where
  "unblock blocker h = h\<lparr>blockers := events_remove blocker (blockers h)\<rparr>"

text \<open>Invoking the \<open>retry\<close> of a transition; \<open>r\<close> is the random string of the new call.\<close>

definition retry :: "'s invoke \<Rightarrow> string \<Rightarrow> 's Retry \<Rightarrow> 's MemoryHistory \<Rightarrow> 's MemoryHistory \<times> error option" where
  "retry R r rt h =
     (case rt of
        RetryPush to st \<Rightarrow> push R r to st h
      | RetryReplace to st \<Rightarrow> replace R r to st h
      | RetryGo n \<Rightarrow> go R n h)"

text \<open>The calls a client can make on a memory history.\<close>

datatype 's Call =
    CallPush string To "'s option"
  | CallReplace string To "'s option"
  | CallGo int
  | CallBack
  | CallForward
  | CallListen handler
  | CallUnlisten handler
  | CallBlock handler
  | CallUnblock handler
  | CallRetry string "'s Retry"

definition step :: "'s invoke \<Rightarrow> 's Call \<Rightarrow> 's MemoryHistory \<Rightarrow> 's MemoryHistory \<times> error option" where
  "step R c h =
     (case c of
        CallPush r to st \<Rightarrow> push R r to st h
      | CallReplace r to st \<Rightarrow> replace R r to st h
      | CallGo n \<Rightarrow> go R n h
      | CallBack \<Rightarrow> history_back R h
      | CallForward \<Rightarrow> history_forward R h
      | CallListen fn \<Rightarrow> (listen fn h, None)
      | CallUnlisten fn \<Rightarrow> (unlisten fn h, None)
      | CallBlock fn \<Rightarrow> (block fn h, None)
      | CallUnblock fn \<Rightarrow> (unblock fn h, None)
      | CallRetry r rt \<Rightarrow> retry R r rt h)"

text \<open>
  A sequence of calls of a client that goes on after a call that threw: the history after
  the last call.
\<close>

fun run :: "'s invoke \<Rightarrow> 's Call list \<Rightarrow> 's MemoryHistory \<Rightarrow> 's MemoryHistory" where
  "run R [] h = h"
| "run R (c # cs) h = run R cs (fst (step R c h))"

text \<open>
  Handlers written against the interface of the history. When a handler is invoked it
  decides on a list of commands, from its argument and the history it can read: a call of
  the history, the \<open>retry\<close> of the transition it received (\<open>r\<close> is the random string of
  the call that \<open>retry\<close> makes), either of them inside a \<open>try\<close> that catches what it
  throws, or a \<open>throw\<close>. An exception that leaves a command leaves the handler. A
  listener receives an update, which has no \<open>retry\<close>: calling it throws a \<open>TypeError\<close>.
\<close>

datatype 's Command =
    Throw
  | Do "'s Call"
  | RetryReceived string
  | Try "'s Call"
  | TryRetryReceived string

type_synonym 's behaviour = "'s event \<Rightarrow> 's MemoryHistory \<Rightarrow> 's Command list"

definition retry_of :: "'s event \<Rightarrow> 's Retry option" where
  "retry_of ev =
     (case ev of
        ListenerCalled fn u \<Rightarrow> None
      | BlockerCalled fn tx \<Rightarrow> (case tx of Transition a l rt \<Rightarrow> Some rt))"

definition run_command :: "('s Call \<Rightarrow> 's MemoryHistory \<Rightarrow> 's MemoryHistory \<times> error option) \<Rightarrow> 's Retry option \<Rightarrow> 's Command \<Rightarrow> 's MemoryHistory \<Rightarrow> 's MemoryHistory \<times> error option" where
  "run_command nested rt c h =
     (case c of
        Throw \<Rightarrow> (h, Some Thrown)
      | Do k \<Rightarrow> nested k h
      | RetryReceived r \<Rightarrow>
          (case rt of None \<Rightarrow> (h, Some TypeError) | Some t \<Rightarrow> nested (CallRetry r t) h)
      | Try k \<Rightarrow> (fst (nested k h), None)
      | TryRetryReceived r \<Rightarrow>
          (case rt of None \<Rightarrow> (h, None) | Some t \<Rightarrow> (fst (nested (CallRetry r t) h), None)))"

fun run_script :: "('s Call \<Rightarrow> 's MemoryHistory \<Rightarrow> 's MemoryHistory \<times> error option) \<Rightarrow> 's Retry option \<Rightarrow> 's Command list \<Rightarrow> 's MemoryHistory \<Rightarrow> 's MemoryHistory \<times> error option" where
  "run_script nested rt [] h = (h, None)"
| "run_script nested rt (c # cs) h =
     (case run_command nested rt c h of
        (h', Some e) \<Rightarrow> (h', Some e)
      | (h', None) \<Rightarrow> run_script nested rt cs h')"

text \<open>
  The invocation of such handlers. A call made inside a callback invokes handlers in turn;
  \<open>d\<close> is the number of nested invocations that the call stack has room for, and the
  invocation that would go deeper throws a \<open>RangeError\<close>.
\<close>

primrec callback :: "nat \<Rightarrow> 's behaviour \<Rightarrow> 's invoke" where
  "callback 0 = (\<lambda>B ev h. (h, Some RangeError))"
| "callback (Suc d) = (\<lambda>B ev h. run_script (step (callback d B)) (retry_of ev) (B ev h) h)"

section \<open>Browser history: handling a pop of the platform\<close>












section \<open>The cursor invariant, kinds of handlers and sample histories\<close>

text \<open>
  The index is a position of \<open>entries\<close> and the observable location is the entry there.
\<close>

definition cursor_in_range :: "'s MemoryHistory \<Rightarrow> bool" where
  "cursor_in_range h \<longleftrightarrow>
     0 \<le> index h \<and> index h \<le> int (length (entries h)) - 1
     \<and> location h = Some (entries h ! nat (index h))"

text \<open>
  A created history either has its cursor in range or has no entry and no location.
\<close>

definition settled :: "'s MemoryHistory \<Rightarrow> bool" where
  "settled h \<longleftrightarrow> cursor_in_range h \<or> (entries h = [] \<and> location h = None)"

text \<open>
  Handlers that return: no invocation is left by an exception. Bystanders: handlers that
  make no navigation of their own, so that an invocation leaves the entries, the cursor and
  the trace as they are; it can register and unregister handlers and it can throw. Inert
  handlers leave the whole history as it is.
\<close>

definition returns :: "'s invoke \<Rightarrow> bool" where
  "returns R \<longleftrightarrow> (\<forall>ev h. snd (R ev h) = None)"

definition bystander :: "'s invoke \<Rightarrow> bool" where
  "bystander R \<longleftrightarrow>
     (\<forall>ev h. entries (fst (R ev h)) = entries h \<and> index (fst (R ev h)) = index h
        \<and> action (fst (R ev h)) = action h \<and> location (fst (R ev h)) = location h
        \<and> trace (fst (R ev h)) = trace h)"


text \<open>
  \<open>createMemoryHistory({initialEntries: ['/a', '/b']})\<close> with the random strings drawn for
  the two keys, the same history created at index 1, the same history after \<open>listen\<close> and
  \<open>block\<close>, and a history created with no entries.
\<close>

abbreviation (input) sample_rand :: "nat \<Rightarrow> string" where
  "sample_rand \<equiv> (\<lambda>i. if i = 0 then ''0.k3yq8w2bxm'' else ''0.p07ab1c9de'')"

abbreviation (input) sample :: "unit MemoryHistory" where
  "sample \<equiv> createMemoryHistory sample_rand (Some [Path ''/a'', Path ''/b'']) None"

abbreviation (input) sample_at_b :: "unit MemoryHistory" where
  "sample_at_b \<equiv> createMemoryHistory sample_rand (Some [Path ''/a'', Path ''/b'']) (Some 1)"

abbreviation (input) guarded :: "unit MemoryHistory" where
  "guarded \<equiv> block 7 (listen 3 sample)"

abbreviation (input) empty_history :: "unit MemoryHistory" where
  "empty_history \<equiv> createMemoryHistory sample_rand (Some []) None"

text \<open>
  Handlers that do nothing; a blocker 7 that unregisters itself and calls the \<open>retry\<close> it
  received; a blocker 7 that unregisters itself and pushes \<open>/x\<close> instead; a listener 3
  that throws.
\<close>

abbreviation (input) quiet :: "unit invoke" where
  "quiet \<equiv> (\<lambda>ev h. (h, None))"

abbreviation (input) letting_through :: "unit behaviour" where
  "letting_through \<equiv> (\<lambda>ev h. case ev of
      ListenerCalled fn u \<Rightarrow> []
    | BlockerCalled fn tx \<Rightarrow>
        if fn = 7 then [Do (CallUnblock 7), RetryReceived ''0.yyyyyyyyyy''] else [])"

abbreviation (input) navigating :: "unit behaviour" where
  "navigating \<equiv> (\<lambda>ev h. case ev of
      ListenerCalled fn u \<Rightarrow> []
    | BlockerCalled fn tx \<Rightarrow>
        if fn = 7 then [Do (CallUnblock 7), Do (CallPush ''0.xxxxxxxxxx'' (Path ''/x'') None)] else [])"

abbreviation (input) throwing :: "unit behaviour" where
  "throwing \<equiv> (\<lambda>ev h. case ev of
      ListenerCalled fn u \<Rightarrow> if fn = 3 then [Throw] else []
    | BlockerCalled fn tx \<Rightarrow> [])"



section \<open>Properties of the path codec\<close>

lemma indexOf_ge_m1: "indexOf s c \<ge> -1"
  by (induction s) (auto simp: Let_def)

lemma indexOf_neg_iff: "indexOf s c < 0 \<longleftrightarrow> c \<notin> set s"
  by (induction s) (auto simp: Let_def)

lemma indexOf_hd: "s \<noteq> [] \<Longrightarrow> indexOf s (hd s) = 0"
  by (cases s) auto

lemma indexOf_take: "indexOf s c \<ge> 0 \<Longrightarrow> take (nat (indexOf s c)) s = takeWhile (\<lambda>x. x \<noteq> c) s"
proof (induction s)
  case Nil
  then show ?case by simp
next
  case (Cons x xs)
  show ?case
  proof (cases "x = c")
    case True
    then show ?thesis by simp
  next
    case False
    with Cons.prems have nn: "indexOf xs c \<ge> 0"
      by (auto simp: Let_def split: if_splits)
    then have "nat (indexOf xs c + 1) = Suc (nat (indexOf xs c))" by simp
    with False nn Cons.IH show ?thesis by (simp add: Let_def)
  qed
qed

lemma indexOf_drop: "indexOf s c \<ge> 0 \<Longrightarrow> drop (nat (indexOf s c)) s = dropWhile (\<lambda>x. x \<noteq> c) s"
proof (induction s)
  case Nil
  then show ?case by simp
next
  case (Cons x xs)
  show ?case
  proof (cases "x = c")
    case True
    then show ?thesis by simp
  next
    case False
    with Cons.prems have nn: "indexOf xs c \<ge> 0"
      by (auto simp: Let_def split: if_splits)
    then have "nat (indexOf xs c + 1) = Suc (nat (indexOf xs c))" by simp
    with False nn Cons.IH show ?thesis by (simp add: Let_def)
  qed
qed

lemma indexOf_split: "indexOf s c \<ge> 0 \<Longrightarrow> substr_upto s (indexOf s c) @ substr_from s (indexOf s c) = s"
  by (simp add: substr_upto_def substr_from_def)

lemma substr_upto_empty_iff:
  "indexOf s c \<ge> 0 \<Longrightarrow> substr_upto s (indexOf s c) = [] \<longleftrightarrow> s \<noteq> [] \<and> hd s = c"
proof -
  assume nn: "indexOf s c \<ge> 0"
  then have "c \<in> set s" using indexOf_neg_iff [of s c] by auto
  then have ne: "s \<noteq> []" by auto
  have "substr_upto s (indexOf s c) = takeWhile (\<lambda>x. x \<noteq> c) s"
    unfolding substr_upto_def using nn by (rule indexOf_take)
  with ne show ?thesis by (cases s) (simp_all del: indexOf.simps)
qed

lemma substr_upto_hd:
  "indexOf s c \<ge> 0 \<Longrightarrow> substr_upto s (indexOf s c) \<noteq> [] \<Longrightarrow> hd (substr_upto s (indexOf s c)) = hd s"
proof -
  assume nn: "indexOf s c \<ge> 0" and ne: "substr_upto s (indexOf s c) \<noteq> []"
  have "substr_upto s (indexOf s c) = takeWhile (\<lambda>x. x \<noteq> c) s"
    unfolding substr_upto_def using nn by (rule indexOf_take)
  with ne show ?thesis by (cases s) (simp_all del: indexOf.simps split: if_splits)
qed

text \<open>
  What the composition returns on every string: the input itself, with the default
  pathname \<open>/\<close> in front when the input has no pathname part.
\<close>

lemma createPath_parsePath:
  "createPath (parsePath p) =
     (if p = [] \<or> hd p = CHR ''#'' \<or> hd p = CHR ''?'' then ''/'' @ p else p)"
proof (cases "p = []")
  case True
  then show ?thesis by (simp add: createPath_def parsePath_def)
next
  case ne: False
  define hi where "hi = indexOf p (CHR ''#'')"
  define p1 where "p1 = (if hi \<ge> 0 then substr_upto p hi else p)"
  define hp where "hp = (if hi \<ge> 0 then substr_from p hi else [])"
  define si where "si = indexOf p1 (CHR ''?'')"
  define p2 where "p2 = (if si \<ge> 0 then substr_upto p1 si else p1)"
  define sp where "sp = (if si \<ge> 0 then substr_from p1 si else [])"
  have split1: "p1 @ hp = p"
    unfolding p1_def hp_def hi_def by (simp add: indexOf_split)
  have split2: "p2 @ sp = p1"
    unfolding p2_def sp_def si_def by (simp add: indexOf_split)
  have whole: "p2 @ sp @ hp = p"
    using split1 split2 [symmetric] by simp
  have cp: "createPath (parsePath p) = (if p2 \<noteq> [] then p2 else ''/'') @ sp @ hp"
  proof -
    have "parsePath p =
        \<lparr>pp_pathname = (if p2 \<noteq> [] then Some p2 else None),
         pp_search = (if si \<ge> 0 then Some sp else None),
         pp_hash = (if hi \<ge> 0 then Some hp else None)\<rparr>"
      using ne unfolding parsePath_def Let_def p2_def sp_def hp_def si_def p1_def hi_def
      by simp
    then show ?thesis
      unfolding createPath_def by (simp add: sp_def hp_def)
  qed
  have p1_empty: "p1 = [] \<longleftrightarrow> hd p = CHR ''#''"
    using ne indexOf_hd [of p] unfolding p1_def hi_def
    by (cases "hi \<ge> 0") (auto simp: substr_upto_empty_iff)
  have p2_empty: "p2 = [] \<longleftrightarrow> p1 = [] \<or> hd p1 = CHR ''?''"
    using indexOf_hd [of p1] unfolding p2_def si_def
    by (cases "p1 = []") (auto simp: substr_upto_empty_iff)
  have hd_p1: "p1 \<noteq> [] \<Longrightarrow> hd p1 = hd p"
    unfolding p1_def hi_def by (auto simp: substr_upto_hd)
  have "p2 = [] \<longleftrightarrow> hd p = CHR ''#'' \<or> hd p = CHR ''?''"
    using p1_empty p2_empty hd_p1 by auto
  with cp whole ne show ?thesis by auto
qed

text \<open>
  Claim C1. For every valid path string \<open>p\<close>, \<open>createPath (parsePath p) = p\<close>. A path
  string is valid when it has a pathname part, that is, it is not empty and does not begin
  with \<open>?\<close> or \<open>#\<close> (the source documents the pathname as beginning with \<open>/\<close>).
\<close>

theorem createPath_parsePath_roundtrip:
  "p \<noteq> [] \<Longrightarrow> hd p \<noteq> CHR ''#'' \<Longrightarrow> hd p \<noteq> CHR ''?'' \<Longrightarrow> createPath (parsePath p) = p"
  by (simp add: createPath_parsePath)

theorem createPath_parsePath_roundtrip_witness:
  "''/a/b?x=1#top'' \<noteq> [] \<and> hd ''/a/b?x=1#top'' \<noteq> CHR ''#'' \<and> hd ''/a/b?x=1#top'' \<noteq> CHR ''?''
   \<and> createPath (parsePath ''/a/b?x=1#top'') = ''/a/b?x=1#top''"
  using createPath_parsePath_roundtrip [of "''/a/b?x=1#top''"] by simp

section \<open>Properties of the event registry\<close>


text \<open>
  When no handler throws, \<open>call\<close> runs every handler, in the order of registration.
\<close>

lemma call_no_throw:
  "(\<And>h w. snd (f h a w) = None) \<Longrightarrow> call f hs a w = (fold (\<lambda>h w. fst (f h a w)) hs w, None)"
proof (induction hs arbitrary: w)
  case Nil
  then show ?case by simp
next
  case (Cons h hs)
  obtain w' where r: "f h a w = (w', None)" using Cons.prems [of h w] by (cases "f h a w") auto
  show ?case using Cons.IH [OF Cons.prems, of w'] r by simp
qed

text \<open>
  Claim C9. Duplicate registrations of one handler reference coexist: registering it twice
  adds two occurrences. The function returned by \<open>push\<close> removes that reference (every
  occurrence of it) and keeps the other handlers in their order; calling it a second time
  changes nothing, and it leaves the registry as it is exactly when the handler is not
  registered.
\<close>

theorem registry_add_remove:
  "count_list (events_push fn (events_push fn handlers)) fn = count_list handlers fn + 2
   \<and> fn \<notin> set (events_remove fn handlers)
   \<and> filter (\<lambda>h. h \<noteq> fn) (events_remove fn handlers) = filter (\<lambda>h. h \<noteq> fn) handlers
   \<and> events_remove fn (events_remove fn handlers) = events_remove fn handlers
   \<and> (events_remove fn handlers = handlers \<longleftrightarrow> fn \<notin> set handlers)"
  by (auto simp add: events_push_def events_remove_def filter_id_conv)

text \<open>
  Claim C6, as the code has it. \<open>call\<close> invokes the registered handlers in the order of
  registration, each with the argument, up to and including the first one that throws; that
  exception reaches the caller and the handlers after it are not invoked. When none
  throws, every handler is invoked once and \<open>call\<close> returns.
\<close>

lemma call_stops_at_first_throw:
  "call (recording T) hs a lg =
     (lg @ map (\<lambda>h. (h, a)) (takeWhile (\<lambda>h. h \<notin> T) hs @ take 1 (dropWhile (\<lambda>h. h \<notin> T) hs)),
      if set hs \<inter> T = {} then None else Some ())"
proof (induction hs arbitrary: lg)
  case Nil
  then show ?case by simp
next
  case (Cons h hs)
  show ?case
  proof (cases "h \<in> T")
    case True
    then show ?thesis by (simp add: recording_def)
  next
    case False
    have "call (recording T) (h # hs) a lg = call (recording T) hs a (lg @ [(h, a)])"
      using False by (simp add: recording_def)
    then show ?thesis using False by (simp add: Cons.IH)
  qed
qed

text \<open>
  With handlers 4 and 5 registered in this order and 4 throwing, handler 5 is never
  invoked and the exception leaves \<open>call\<close>.
\<close>

theorem call_not_isolated_counterexample:
  "call (recording {4}) [4, 5] ''update'' [] = ([(4, ''update'')], Some ())"
  by (simp add: recording_def)

section \<open>Properties of the memory history\<close>

text \<open>
  An invariant of the history that every invocation of a handler keeps is kept by \<open>call\<close>,
  together with a property of the exception.
\<close>

lemma call_keeps:
  assumes "\<And>fn w. I w \<Longrightarrow> I (fst (f fn arg w))" and "I w"
  shows "I (fst (call f hs arg w))"
  using assms(2)
proof (induction hs arbitrary: w)
  case Nil
  then show ?case by simp
next
  case (Cons fn fns)
  obtain w' e where r: "f fn arg w = (w', e)" by (cases "f fn arg w")
  from assms(1) [OF Cons.prems, of fn] r have i: "I w'" by simp
  show ?case
  proof (cases e)
    case None
    with r Cons.IH [OF i] show ?thesis by simp
  next
    case (Some x)
    with r i show ?thesis by simp
  qed
qed

lemma call_keeps_both:
  assumes "\<And>fn w. I w \<Longrightarrow> I (fst (f fn arg w)) \<and> P (snd (f fn arg w))" and "I w" and "P None"
  shows "I (fst (call f hs arg w)) \<and> P (snd (call f hs arg w))"
  using assms(2)
proof (induction hs arbitrary: w)
  case Nil
  then show ?case using assms(3) by simp
next
  case (Cons fn fns)
  obtain w' e where r: "f fn arg w = (w', e)" by (cases "f fn arg w")
  from assms(1) [OF Cons.prems, of fn] r have i: "I w'" and p: "P e" by simp_all
  show ?case
  proof (cases e)
    case None
    with r Cons.IH [OF i] show ?thesis by simp
  next
    case (Some x)
    with r i p show ?thesis by simp
  qed
qed

text \<open>
  A \<open>call\<close> whose handlers return returns.
\<close>

lemma call_returns:
  assumes "returns R"
  shows "snd (call (invoke_handler R mk) hs arg h) = None"
proof -
  from assms have "snd (invoke_handler R mk fn arg w) = None" for fn w
    by (simp add: invoke_handler_def returns_def)
  then show ?thesis by (simp add: call_no_throw)
qed


lemma call_bystander:
  assumes b: "bystander R"
  shows "entries (fst (call (invoke_handler R mk) hs arg h)) = entries h
       \<and> index (fst (call (invoke_handler R mk) hs arg h)) = index h
       \<and> action (fst (call (invoke_handler R mk) hs arg h)) = action h
       \<and> location (fst (call (invoke_handler R mk) hs arg h)) = location h
       \<and> (\<exists>k \<le> length hs. trace (fst (call (invoke_handler R mk) hs arg h))
              = trace h @ map (\<lambda>fn. mk fn arg) (take k hs))"
proof (induction hs arbitrary: h)
  case Nil
  then show ?case by simp
next
  case (Cons fn fns)
  obtain h' e where r: "invoke_handler R mk fn arg h = (h', e)"
    by (cases "invoke_handler R mk fn arg h")
  from b r have f: "entries h' = entries h" "index h' = index h" "action h' = action h"
    "location h' = location h" "trace h' = trace h @ [mk fn arg]"
    by (auto simp: invoke_handler_def bystander_def dest!: arg_cong [where f = fst])
  show ?case
  proof (cases e)
    case (Some x)
    have "trace h' = trace h @ map (\<lambda>fn. mk fn arg) (take 1 (fn # fns))" using f by simp
    moreover have "(1::nat) \<le> length (fn # fns)" by simp
    ultimately have "\<exists>k \<le> length (fn # fns). trace h' = trace h @ map (\<lambda>fn. mk fn arg) (take k (fn # fns))"
      by blast
    with Some r f show ?thesis by simp
  next
    case None
    from Cons.IH [of h'] obtain k where k: "k \<le> length fns"
      "trace (fst (call (invoke_handler R mk) fns arg h')) = trace h' @ map (\<lambda>fn. mk fn arg) (take k fns)"
      by blast
    have "trace (fst (call (invoke_handler R mk) fns arg h'))
        = trace h @ map (\<lambda>fn. mk fn arg) (take (Suc k) (fn # fns))"
      using k f by simp
    moreover have "Suc k \<le> length (fn # fns)" using k by simp
    ultimately have "\<exists>j \<le> length (fn # fns). trace (fst (call (invoke_handler R mk) fns arg h'))
        = trace h @ map (\<lambda>fn. mk fn arg) (take j (fn # fns))"
      by blast
    with None r f Cons.IH [of h'] show ?thesis by simp
  qed
qed

lemma call_bystander_returns:
  assumes b: "bystander R" and q: "returns R"
  shows "trace (fst (call (invoke_handler R mk) hs arg h)) = trace h @ map (\<lambda>fn. mk fn arg) hs
       \<and> snd (call (invoke_handler R mk) hs arg h) = None"
proof (induction hs arbitrary: h)
  case Nil
  then show ?case by simp
next
  case (Cons fn fns)
  obtain h' e where r: "invoke_handler R mk fn arg h = (h', e)"
    by (cases "invoke_handler R mk fn arg h")
  from q r have e: "e = None"
    by (auto simp: invoke_handler_def returns_def dest!: arg_cong [where f = snd])
  from b r have f: "trace h' = trace h @ [mk fn arg]"
    by (auto simp: invoke_handler_def bystander_def dest!: arg_cong [where f = fst])
  from Cons.IH [of h'] r e f show ?case by simp
qed


text \<open>
  The two branches of each call: with no blocker the commit followed by the listeners,
  with a blocker nothing but the blockers.
\<close>

lemma allowTx_free: "blockers h = [] \<Longrightarrow> allowTx R a l rt h = (True, h, None)"
  by (simp add: allowTx_def events_length_def)

lemma allowTx_blocked:
  "blockers h \<noteq> [] \<Longrightarrow>
   allowTx R a l rt h =
     (False, fst (call (invoke_handler R BlockerCalled) (blockers h) (Transition a l rt) h),
      snd (call (invoke_handler R BlockerCalled) (blockers h) (Transition a l rt) h))"
  by (simp add: allowTx_def events_length_def split_beta)

lemma splice_tail: "0 \<le> i \<Longrightarrow> i \<le> int (length xs) \<Longrightarrow> splice i (int (length xs)) x xs = take (nat i) xs @ [x]"
  by (simp add: splice_def Let_def min_def max_def)

lemma push_free:
  "location h = Some cur \<Longrightarrow> blockers h = [] \<Longrightarrow>
   push R r to st h =
     call (invoke_handler R ListenerCalled) (listeners h)
       (Update Push (Some (getNextLocation r cur to st)))
       (h\<lparr>index := index h + 1,
          entries := splice (index h + 1) (int (length (entries h))) (getNextLocation r cur to st) (entries h),
          action := Push,
          location := Some (getNextLocation r cur to st)\<rparr>)"
  by (simp add: push_def allowTx_free applyTx_def Let_def)

lemma push_blocked:
  "location h = Some cur \<Longrightarrow> blockers h \<noteq> [] \<Longrightarrow>
   push R r to st h =
     call (invoke_handler R BlockerCalled) (blockers h)
       (Transition Push (Some (getNextLocation r cur to st)) (RetryPush to st)) h"
  by (simp add: push_def allowTx_blocked Let_def split: option.splits prod.splits)

lemma replace_free:
  "location h = Some cur \<Longrightarrow> blockers h = [] \<Longrightarrow> 0 \<le> index h \<Longrightarrow> index h < int (length (entries h)) \<Longrightarrow>
   replace R r to st h =
     call (invoke_handler R ListenerCalled) (listeners h)
       (Update Replace (Some (getNextLocation r cur to st)))
       (h\<lparr>entries := (entries h)[nat (index h) := getNextLocation r cur to st],
          action := Replace,
          location := Some (getNextLocation r cur to st)\<rparr>)"
  by (simp add: replace_def allowTx_free applyTx_def Let_def array_set_def)

lemma replace_blocked:
  "location h = Some cur \<Longrightarrow> blockers h \<noteq> [] \<Longrightarrow>
   replace R r to st h =
     call (invoke_handler R BlockerCalled) (blockers h)
       (Transition Replace (Some (getNextLocation r cur to st)) (RetryReplace to st)) h"
  by (simp add: replace_def allowTx_blocked Let_def split: option.splits prod.splits)

lemma go_free:
  "blockers h = [] \<Longrightarrow>
   go R n h =
     call (invoke_handler R ListenerCalled) (listeners h)
       (Update Pop (array_get (entries h) (clamp (index h + n) 0 (int (length (entries h)) - 1))))
       (h\<lparr>index := clamp (index h + n) 0 (int (length (entries h)) - 1),
          action := Pop,
          location := array_get (entries h) (clamp (index h + n) 0 (int (length (entries h)) - 1))\<rparr>)"
  by (simp add: go_def allowTx_free applyTx_def Let_def)

lemma go_blocked:
  "blockers h \<noteq> [] \<Longrightarrow>
   go R n h =
     call (invoke_handler R BlockerCalled) (blockers h)
       (Transition Pop (array_get (entries h) (clamp (index h + n) 0 (int (length (entries h)) - 1))) (RetryGo n)) h"
  by (simp add: go_def allowTx_blocked Let_def split: option.splits prod.splits)

lemma clamp_bounds: "0 \<le> hi \<Longrightarrow> 0 \<le> clamp n 0 hi \<and> clamp n 0 hi \<le> hi"
  by (simp add: clamp_def)

lemma clamp_explicit:
  "0 \<le> hi \<Longrightarrow> clamp n 0 hi = (if n < 0 then 0 else if n > hi then hi else n)"
  by (simp add: clamp_def)

lemma cursor_nat:
  "cursor_in_range h \<Longrightarrow> nat (index h) < length (entries h) \<and> nat (index h + 1) = Suc (nat (index h))
     \<and> 0 \<le> index h \<and> index h < int (length (entries h)) \<and> entries h \<noteq> []
     \<and> location h = Some (entries h ! nat (index h))"
  unfolding cursor_in_range_def by (cases "entries h") auto

text \<open>
  Every call keeps the cursor in range when the invocations of handlers do, and the handlers
  written against the interface of the history do, to any depth.
\<close>

lemma invoke_keeps:
  assumes K: "\<And>ev h. cursor_in_range h \<Longrightarrow> cursor_in_range (fst (R ev h))"
  shows "cursor_in_range h \<Longrightarrow> cursor_in_range (fst (invoke_handler R mk fn arg h))"
  unfolding invoke_handler_def by (rule K) (simp add: cursor_in_range_def)

lemma calls_keep:
  assumes K: "\<And>ev h. cursor_in_range h \<Longrightarrow> cursor_in_range (fst (R ev h))"
  shows "cursor_in_range h \<Longrightarrow> cursor_in_range (fst (call (invoke_handler R mk) hs arg h))"
  by (rule call_keeps [where I = cursor_in_range]) (rule invoke_keeps [OF K])

lemma push_keeps_cursor:
  assumes K: "\<And>ev h. cursor_in_range h \<Longrightarrow> cursor_in_range (fst (R ev h))"
    and c: "cursor_in_range h"
  shows "cursor_in_range (fst (push R r to st h))"
proof (cases "blockers h = []")
  case True
  note n = cursor_nat [OF c]
  from n have l: "location h = Some (entries h ! nat (index h))" by simp
  from n have "0 \<le> index h + 1" "index h + 1 \<le> int (length (entries h))" by simp_all
  then have sp: "splice (index h + 1) (int (length (entries h))) x (entries h) = take (nat (index h + 1)) (entries h) @ [x]" for x
    by (rule splice_tail)
  have i: "cursor_in_range (h\<lparr>index := index h + 1,
          entries := splice (index h + 1) (int (length (entries h))) (getNextLocation r (entries h ! nat (index h)) to st) (entries h),
          action := Push,
          location := Some (getNextLocation r (entries h ! nat (index h)) to st)\<rparr>)"
    using n by (simp add: cursor_in_range_def sp nth_append min_def)
  show ?thesis
    unfolding push_free [OF l True] by (rule calls_keep [OF K i])
next
  case False
  from cursor_nat [OF c] have l: "location h = Some (entries h ! nat (index h))" by simp
  show ?thesis unfolding push_blocked [OF l False] by (rule calls_keep [OF K c])
qed

lemma replace_keeps_cursor:
  assumes K: "\<And>ev h. cursor_in_range h \<Longrightarrow> cursor_in_range (fst (R ev h))"
    and c: "cursor_in_range h"
  shows "cursor_in_range (fst (replace R r to st h))"
proof (cases "blockers h = []")
  case True
  note n = cursor_nat [OF c]
  from n have l: "location h = Some (entries h ! nat (index h))" by simp
  from n have b: "0 \<le> index h" "index h < int (length (entries h))" by simp_all
  have i: "cursor_in_range (h\<lparr>entries := (entries h)[nat (index h) := getNextLocation r (entries h ! nat (index h)) to st],
          action := Replace,
          location := Some (getNextLocation r (entries h ! nat (index h)) to st)\<rparr>)"
    using n by (simp add: cursor_in_range_def)
  show ?thesis
    unfolding replace_free [OF l True b] by (rule calls_keep [OF K i])
next
  case False
  from cursor_nat [OF c] have l: "location h = Some (entries h ! nat (index h))" by simp
  show ?thesis unfolding replace_blocked [OF l False] by (rule calls_keep [OF K c])
qed

lemma go_keeps_cursor:
  assumes K: "\<And>ev h. cursor_in_range h \<Longrightarrow> cursor_in_range (fst (R ev h))"
    and c: "cursor_in_range h"
  shows "cursor_in_range (fst (go R n h))"
proof (cases "blockers h = []")
  case True
  from c have "0 \<le> int (length (entries h)) - 1" unfolding cursor_in_range_def by linarith
  from clamp_bounds [OF this, of "index h + n"]
  have i: "cursor_in_range (h\<lparr>index := clamp (index h + n) 0 (int (length (entries h)) - 1),
          action := Pop,
          location := array_get (entries h) (clamp (index h + n) 0 (int (length (entries h)) - 1))\<rparr>)"
    by (simp add: cursor_in_range_def array_get_def)
  show ?thesis
    unfolding go_free [OF True] by (rule calls_keep [OF K i])
next
  case False
  show ?thesis unfolding go_blocked [OF False] by (rule calls_keep [OF K c])
qed

lemma retry_keeps_cursor:
  assumes K: "\<And>ev h. cursor_in_range h \<Longrightarrow> cursor_in_range (fst (R ev h))"
    and c: "cursor_in_range h"
  shows "cursor_in_range (fst (retry R r rt h))"
  by (cases rt)
     (simp_all add: retry_def push_keeps_cursor [OF K c] replace_keeps_cursor [OF K c] go_keeps_cursor [OF K c])

lemma step_keeps_cursor:
  assumes K: "\<And>ev h. cursor_in_range h \<Longrightarrow> cursor_in_range (fst (R ev h))"
    and c: "cursor_in_range h"
  shows "cursor_in_range (fst (step R k h))"
proof (cases k)
  case (CallListen fn)
  then show ?thesis using c by (simp add: step_def listen_def cursor_in_range_def)
next
  case (CallUnlisten fn)
  then show ?thesis using c by (simp add: step_def unlisten_def cursor_in_range_def)
next
  case (CallBlock fn)
  then show ?thesis using c by (simp add: step_def block_def cursor_in_range_def)
next
  case (CallUnblock fn)
  then show ?thesis using c by (simp add: step_def unblock_def cursor_in_range_def)
qed (simp_all add: step_def history_back_def history_forward_def
      push_keeps_cursor [OF K c] replace_keeps_cursor [OF K c] go_keeps_cursor [OF K c]
      retry_keeps_cursor [OF K c])

lemma run_script_keeps:
  assumes N: "\<And>k h. cursor_in_range h \<Longrightarrow> cursor_in_range (fst (nested k h))"
  shows "cursor_in_range h \<Longrightarrow> cursor_in_range (fst (run_script nested rt cs h))"
proof (induction cs arbitrary: h)
  case Nil
  then show ?case by simp
next
  case (Cons c cs)
  define res where "res = run_command nested rt c h"
  have i: "cursor_in_range (fst res)"
    unfolding res_def run_command_def using Cons.prems N by (cases c; cases rt) simp_all
  obtain h' e where r: "res = (h', e)" by (cases res)
  with i have i': "cursor_in_range h'" by simp
  show ?case
    using r i' Cons.IH [OF i'] unfolding run_script.simps res_def [symmetric]
    by (cases e) simp_all
qed

lemma callback_keeps:
  "cursor_in_range h \<Longrightarrow> cursor_in_range (fst (callback d B ev h))"
proof (induction d arbitrary: h ev)
  case 0
  then show ?case by simp
next
  case (Suc d)
  have N: "\<And>k h. cursor_in_range h \<Longrightarrow> cursor_in_range (fst (step (callback d B) k h))"
    by (rule step_keeps_cursor) (rule Suc.IH)
  from run_script_keeps [of "step (callback d B)", OF N Suc.prems] show ?case by simp
qed

lemma run_keeps_cursor:
  "cursor_in_range h \<Longrightarrow> cursor_in_range (run (callback d B) cs h)"
proof (induction cs arbitrary: h)
  case Nil
  then show ?case by simp
next
  case (Cons c cs)
  have "cursor_in_range (fst (step (callback d B) c h))"
    by (rule step_keeps_cursor [OF callback_keeps Cons.prems])
  from Cons.IH [OF this] show ?case by simp
qed

lemma createMemoryHistory_cursor:
  "ies \<noteq> Some [] \<Longrightarrow> cursor_in_range (createMemoryHistory rand ies ii)"
proof -
  assume ne: "ies \<noteq> Some []"
  define es where "es = (case ies of None \<Rightarrow> [Path ''/''] | Some es \<Rightarrow> es)"
  have "es \<noteq> []" using ne by (cases ies) (simp_all add: es_def)
  then have "0 \<le> int (length es) - 1" by (cases es) simp_all
  from clamp_bounds [OF this] show ?thesis
    unfolding createMemoryHistory_def Let_def es_def [symmetric]
    by (simp add: cursor_in_range_def array_get_def)
qed

text \<open>
  A history created with no entries has no location: \<open>push\<close> and \<open>replace\<close> throw and
  \<open>go\<close> stays there. So no sequence of calls on a created history assigns outside the
  array.
\<close>

lemma invoke_settled:
  fixes R :: "'s invoke"
  assumes K: "\<forall>ev h. settled h \<longrightarrow> settled (fst (R ev h)) \<and> snd (R ev h) \<noteq> Some SparseArray"
  shows "settled h \<Longrightarrow> settled (fst (invoke_handler R mk fn arg h))
      \<and> snd (invoke_handler R mk fn arg h) \<noteq> Some SparseArray"
proof -
  assume "settled h"
  then have "settled (h\<lparr>trace := trace h @ [mk fn arg]\<rparr>)"
    by (simp add: settled_def cursor_in_range_def)
  with K show ?thesis unfolding invoke_handler_def by blast
qed

lemma calls_settled:
  fixes R :: "'s invoke"
  assumes K: "\<forall>ev h. settled h \<longrightarrow> settled (fst (R ev h)) \<and> snd (R ev h) \<noteq> Some SparseArray"
    and s: "settled h"
  shows "settled (fst (call (invoke_handler R mk) hs arg h))
      \<and> snd (call (invoke_handler R mk) hs arg h) \<noteq> Some SparseArray"
proof -
  have n: "None \<noteq> Some SparseArray" by simp
  show ?thesis
  proof (rule call_keeps_both [where I = "settled :: 's MemoryHistory \<Rightarrow> bool"
        and P = "\<lambda>e. e \<noteq> Some SparseArray" and f = "invoke_handler R mk"])
    fix fn and w :: "'s MemoryHistory"
    assume "settled w"
    then show "settled (fst (invoke_handler R mk fn arg w))
        \<and> snd (invoke_handler R mk fn arg w) \<noteq> Some SparseArray"
      by (rule invoke_settled [OF K])
  qed (use s in simp_all)
qed

lemma step_settled:
  fixes R :: "'s invoke"
  assumes K: "\<forall>ev h. settled h \<longrightarrow> settled (fst (R ev h)) \<and> snd (R ev h) \<noteq> Some SparseArray"
    and s: "settled h"
  shows "settled (fst (step R k h)) \<and> snd (step R k h) \<noteq> Some SparseArray"
proof -
  note C = calls_settled [OF K]
  have g: "settled (fst (go R n h)) \<and> snd (go R n h) \<noteq> Some SparseArray" for n
  proof (cases "blockers h = []")
    case False
    show ?thesis unfolding go_blocked [OF False] by (rule C [OF s])
  next
    case True
    have "settled (h\<lparr>index := clamp (index h + n) 0 (int (length (entries h)) - 1),
          action := Pop,
          location := array_get (entries h) (clamp (index h + n) 0 (int (length (entries h)) - 1))\<rparr>)"
    proof (cases "entries h = []")
      case True
      then show ?thesis by (simp add: settled_def array_get_def clamp_def)
    next
      case False
      then have "0 \<le> int (length (entries h)) - 1" by (cases "entries h") simp_all
      from clamp_bounds [OF this, of "index h + n"] show ?thesis
        by (simp add: settled_def cursor_in_range_def array_get_def)
    qed
    then show ?thesis unfolding go_free [OF True] by (rule C)
  qed
  have p: "settled (fst (push R r to st h)) \<and> snd (push R r to st h) \<noteq> Some SparseArray" for r to st
  proof (cases "location h")
    case None
    then show ?thesis using s by (simp add: push_def)
  next
    case (Some cur)
    with s have c: "cursor_in_range h" by (auto simp: settled_def)
    note n = cursor_nat [OF c]
    from n Some have l: "location h = Some (entries h ! nat (index h))" by simp
    show ?thesis
    proof (cases "blockers h = []")
      case False
      show ?thesis unfolding push_blocked [OF l False] by (rule C [OF s])
    next
      case True
      from n have "0 \<le> index h + 1" "index h + 1 \<le> int (length (entries h))" by simp_all
      then have sp: "splice (index h + 1) (int (length (entries h))) x (entries h) = take (nat (index h + 1)) (entries h) @ [x]" for x
        by (rule splice_tail)
      have "settled (h\<lparr>index := index h + 1,
          entries := splice (index h + 1) (int (length (entries h))) (getNextLocation r (entries h ! nat (index h)) to st) (entries h),
          action := Push,
          location := Some (getNextLocation r (entries h ! nat (index h)) to st)\<rparr>)"
        using n by (simp add: settled_def cursor_in_range_def sp nth_append min_def)
      then show ?thesis unfolding push_free [OF l True] by (rule C)
    qed
  qed
  have q: "settled (fst (replace R r to st h)) \<and> snd (replace R r to st h) \<noteq> Some SparseArray" for r to st
  proof (cases "location h")
    case None
    then show ?thesis using s by (simp add: replace_def)
  next
    case (Some cur)
    with s have c: "cursor_in_range h" by (auto simp: settled_def)
    note n = cursor_nat [OF c]
    from n Some have l: "location h = Some (entries h ! nat (index h))" by simp
    from n have b: "0 \<le> index h" "index h < int (length (entries h))" by simp_all
    show ?thesis
    proof (cases "blockers h = []")
      case False
      show ?thesis unfolding replace_blocked [OF l False] by (rule C [OF s])
    next
      case True
      have "settled (h\<lparr>entries := (entries h)[nat (index h) := getNextLocation r (entries h ! nat (index h)) to st],
          action := Replace,
          location := Some (getNextLocation r (entries h ! nat (index h)) to st)\<rparr>)"
        using n by (simp add: settled_def cursor_in_range_def)
      then show ?thesis unfolding replace_free [OF l True b] by (rule C)
    qed
  qed
  show ?thesis
  proof (cases k)
    case (CallRetry r rt)
    then show ?thesis using p q g by (cases rt) (simp_all add: step_def retry_def)
  next
    case (CallListen fn)
    then show ?thesis using s by (simp add: step_def listen_def settled_def cursor_in_range_def)
  next
    case (CallUnlisten fn)
    then show ?thesis using s by (simp add: step_def unlisten_def settled_def cursor_in_range_def)
  next
    case (CallBlock fn)
    then show ?thesis using s by (simp add: step_def block_def settled_def cursor_in_range_def)
  next
    case (CallUnblock fn)
    then show ?thesis using s by (simp add: step_def unblock_def settled_def cursor_in_range_def)
  qed (simp_all add: step_def history_back_def history_forward_def p q g)
qed

lemma run_script_settled:
  assumes N: "\<forall>k h. settled h \<longrightarrow> settled (fst (nested k h)) \<and> snd (nested k h) \<noteq> Some SparseArray"
  shows "settled h \<Longrightarrow> settled (fst (run_script nested rt cs h))
      \<and> snd (run_script nested rt cs h) \<noteq> Some SparseArray"
proof (induction cs arbitrary: h)
  case Nil
  then show ?case by simp
next
  case (Cons c cs)
  define res where "res = run_command nested rt c h"
  have i: "settled (fst res) \<and> snd res \<noteq> Some SparseArray"
    unfolding res_def run_command_def using Cons.prems N by (cases c; cases rt) simp_all
  obtain h' e where r: "res = (h', e)" by (cases res)
  with i have i': "settled h'" and e: "e \<noteq> Some SparseArray" by simp_all
  show ?case
    using r i' e Cons.IH [OF i'] unfolding run_script.simps res_def [symmetric]
    by (cases e) simp_all
qed

lemma callback_settled:
  fixes B :: "'s behaviour"
  shows "\<forall>ev h. settled h \<longrightarrow> settled (fst (callback d B ev h)) \<and> snd (callback d B ev h) \<noteq> Some SparseArray"
proof (induction d)
  case 0
  show ?case by simp
next
  case (Suc d)
  have K: "\<forall>ev h. settled h \<longrightarrow> settled (fst (callback d B ev h))
      \<and> snd (callback d B ev h) \<noteq> Some SparseArray"
    using Suc.IH by blast
  have N: "\<forall>k h. settled h \<longrightarrow> settled (fst (step (callback d B) k h))
      \<and> snd (step (callback d B) k h) \<noteq> Some SparseArray"
    using step_settled [OF K] by blast
  from run_script_settled [OF N] show ?case by simp
qed

lemma run_settled: "settled h \<Longrightarrow> settled (run (callback d B) cs h)"
proof (induction cs arbitrary: h)
  case Nil
  then show ?case by simp
next
  case (Cons c cs)
  from step_settled [OF callback_settled Cons.prems]
  have "settled (fst (step (callback d B) c h))" by simp
  from Cons.IH [OF this] show ?case by simp
qed

lemma createMemoryHistory_settled: "settled (createMemoryHistory rand ies ii)"
proof (cases "ies = Some []")
  case True
  then show ?thesis by (simp add: settled_def createMemoryHistory_def Let_def array_get_def clamp_def)
next
  case False
  then show ?thesis by (simp add: settled_def createMemoryHistory_cursor)
qed

lemma never_sparse:
  "snd (step (callback d B) c (run (callback d B) cs (createMemoryHistory rand ies ii))) \<noteq> Some SparseArray"
  using step_settled [OF callback_settled run_settled [OF createMemoryHistory_settled]] by blast

lemmas eval_simps = createMemoryHistory_def Let_def clamp_def array_get_def initial_location_def
  to_pieces_def parsePath_def createKey_def substr_from_def substr_upto_def createEvents_def
  enumerate_eq_zip getNextLocation_def

lemmas call_simps = invoke_handler_def step_def retry_def push_def replace_def go_def allowTx_def
  applyTx_def events_length_def history_back_def history_forward_def listen_def unlisten_def
  block_def unblock_def events_push_def events_remove_def retry_of_def run_command_def
  array_set_def splice_def


lemma quiet_bystander: "bystander quiet"
  by (simp add: bystander_def)

lemma quiet_returns: "returns quiet"
  by (simp add: returns_def)

lemma sample_cursor: "cursor_in_range sample"
  by (rule createMemoryHistory_cursor) simp


lemma sample_blockers: "blockers sample = []"
  by (simp add: createMemoryHistory_def Let_def createEvents_def)

lemma sample_at_b_blockers: "blockers sample_at_b = []"
  by (simp add: createMemoryHistory_def Let_def createEvents_def)

lemma sample_entries: "entries sample \<noteq> []"
  by (simp add: eval_simps)

lemma sample_at_b_entries: "entries sample_at_b \<noteq> []"
  by (simp add: eval_simps)

lemma listening_cursor: "cursor_in_range (listen 3 sample)"
  using sample_cursor by (simp add: cursor_in_range_def listen_def)

lemma listening_blockers: "blockers (listen 3 sample) = []"
  by (simp add: listen_def sample_blockers)

lemma guarded_cursor: "cursor_in_range guarded"
  using sample_cursor by (simp add: cursor_in_range_def block_def listen_def)

lemma guarded_blockers: "blockers guarded = [7]"
  by (simp add: block_def listen_def sample_blockers events_push_def)

text \<open>
  Claim C3. On a memory history with no blocker registered and the cursor at index \<open>i\<close>,
  \<open>push\<close> sets the index to \<open>i + 1\<close>, keeps the entries up to position \<open>i\<close>, drops the
  ones after it and appends the new location as the last entry; \<open>replace\<close> overwrites the
  entry at position \<open>i\<close> and keeps the index and the number of entries. That is the
  history on which the listeners are then called, whatever they do; it is the history the
  call leaves when the handlers are bystanders, and the call returns when they also return.
\<close>

theorem push_grows_replace_keeps:
  assumes c: "cursor_in_range h" and nb: "blockers h = []"
  shows "push R r to st h =
           call (invoke_handler R ListenerCalled) (listeners h)
             (Update Push (Some (getNextLocation r (entries h ! nat (index h)) to st)))
             (h\<lparr>index := index h + 1,
                entries := take (nat (index h) + 1) (entries h)
                             @ [getNextLocation r (entries h ! nat (index h)) to st],
                action := Push,
                location := Some (getNextLocation r (entries h ! nat (index h)) to st)\<rparr>)
       \<and> replace R r to st h =
           call (invoke_handler R ListenerCalled) (listeners h)
             (Update Replace (Some (getNextLocation r (entries h ! nat (index h)) to st)))
             (h\<lparr>entries := (entries h)[nat (index h) := getNextLocation r (entries h ! nat (index h)) to st],
                action := Replace,
                location := Some (getNextLocation r (entries h ! nat (index h)) to st)\<rparr>)
       \<and> (bystander R \<longrightarrow>
             index (fst (push R r to st h)) = index h + 1
           \<and> entries (fst (push R r to st h)) = take (nat (index h) + 1) (entries h)
                             @ [getNextLocation r (entries h ! nat (index h)) to st]
           \<and> location (fst (push R r to st h)) = Some (getNextLocation r (entries h ! nat (index h)) to st)
           \<and> action (fst (push R r to st h)) = Push
           \<and> index (fst (replace R r to st h)) = index h
           \<and> length (entries (fst (replace R r to st h))) = length (entries h)
           \<and> entries (fst (replace R r to st h))
               = (entries h)[nat (index h) := getNextLocation r (entries h ! nat (index h)) to st]
           \<and> location (fst (replace R r to st h)) = Some (getNextLocation r (entries h ! nat (index h)) to st)
           \<and> action (fst (replace R r to st h)) = Replace)
       \<and> (bystander R \<and> returns R \<longrightarrow>
             snd (push R r to st h) = None \<and> snd (replace R r to st h) = None)"
proof -
  note n = cursor_nat [OF c]
  from n have l: "location h = Some (entries h ! nat (index h))" by simp
  from n have b: "0 \<le> index h" "index h < int (length (entries h))" by simp_all
  from b have "0 \<le> index h + 1" "index h + 1 \<le> int (length (entries h))" by simp_all
  then have sp: "splice (index h + 1) (int (length (entries h))) x (entries h)
      = take (nat (index h) + 1) (entries h) @ [x]" for x
    using n by (simp add: splice_tail)
  have p: "push R r to st h =
           call (invoke_handler R ListenerCalled) (listeners h)
             (Update Push (Some (getNextLocation r (entries h ! nat (index h)) to st)))
             (h\<lparr>index := index h + 1,
                entries := take (nat (index h) + 1) (entries h)
                             @ [getNextLocation r (entries h ! nat (index h)) to st],
                action := Push,
                location := Some (getNextLocation r (entries h ! nat (index h)) to st)\<rparr>)"
    unfolding push_free [OF l nb] sp by simp
  have q: "replace R r to st h =
           call (invoke_handler R ListenerCalled) (listeners h)
             (Update Replace (Some (getNextLocation r (entries h ! nat (index h)) to st)))
             (h\<lparr>entries := (entries h)[nat (index h) := getNextLocation r (entries h ! nat (index h)) to st],
                action := Replace,
                location := Some (getNextLocation r (entries h ! nat (index h)) to st)\<rparr>)"
    by (rule replace_free [OF l nb b])
  have f: "index (fst (push R r to st h)) = index h + 1
           \<and> entries (fst (push R r to st h)) = take (nat (index h) + 1) (entries h)
                             @ [getNextLocation r (entries h ! nat (index h)) to st]
           \<and> location (fst (push R r to st h)) = Some (getNextLocation r (entries h ! nat (index h)) to st)
           \<and> action (fst (push R r to st h)) = Push
           \<and> index (fst (replace R r to st h)) = index h
           \<and> length (entries (fst (replace R r to st h))) = length (entries h)
           \<and> entries (fst (replace R r to st h))
               = (entries h)[nat (index h) := getNextLocation r (entries h ! nat (index h)) to st]
           \<and> location (fst (replace R r to st h)) = Some (getNextLocation r (entries h ! nat (index h)) to st)
           \<and> action (fst (replace R r to st h)) = Replace"
    if bys: "bystander R"
    unfolding p q using call_bystander [OF bys, where mk = ListenerCalled] by simp
  have g: "snd (push R r to st h) = None \<and> snd (replace R r to st h) = None"
    if bys: "bystander R" and rt: "returns R"
    unfolding p q using call_bystander_returns [OF bys rt, where mk = ListenerCalled] by simp
  from p q f g show ?thesis by blast
qed

theorem push_grows_replace_keeps_witness:
  "cursor_in_range sample \<and> blockers sample = [] \<and> bystander quiet \<and> returns quiet
   \<and> index (fst (push quiet ''0.zzzzzzzzzz'' (Path ''/c'') None sample)) = 1
   \<and> map pathname (entries (fst (push quiet ''0.zzzzzzzzzz'' (Path ''/c'') None sample))) = [''/a'', ''/c'']
   \<and> snd (push quiet ''0.zzzzzzzzzz'' (Path ''/c'') None sample) = None
   \<and> index (fst (replace quiet ''0.zzzzzzzzzz'' (Path ''/c'') None sample)) = 0
   \<and> map pathname (entries (fst (replace quiet ''0.zzzzzzzzzz'' (Path ''/c'') None sample))) = [''/c'', ''/b'']
   \<and> snd (replace quiet ''0.zzzzzzzzzz'' (Path ''/c'') None sample) = None"
proof -
  note t = push_grows_replace_keeps [OF sample_cursor sample_blockers,
      where R = quiet and r = "''0.zzzzzzzzzz''" and to = "Path ''/c''" and st = None]
  note f = t [THEN conjunct2, THEN conjunct2, THEN conjunct1, rule_format, OF quiet_bystander]
  note g = t [THEN conjunct2, THEN conjunct2, THEN conjunct2, rule_format,
      OF conjI [OF quiet_bystander quiet_returns]]
  have p1: "index (fst (push quiet ''0.zzzzzzzzzz'' (Path ''/c'') None sample)) = 1"
    using f by (simp add: eval_simps)
  have p2: "map pathname (entries (fst (push quiet ''0.zzzzzzzzzz'' (Path ''/c'') None sample))) = [''/a'', ''/c'']"
    using f by (simp add: eval_simps)
  have q1: "index (fst (replace quiet ''0.zzzzzzzzzz'' (Path ''/c'') None sample)) = 0"
    using f by (simp add: eval_simps)
  have q2: "map pathname (entries (fst (replace quiet ''0.zzzzzzzzzz'' (Path ''/c'') None sample))) = [''/c'', ''/b'']"
    using f by (simp add: eval_simps)
  from sample_cursor sample_blockers quiet_bystander quiet_returns p1 p2 q1 q2 g
  show ?thesis by simp
qed

text \<open>
  Claim C5, as the code has it. For every integer \<open>n\<close>, on a memory history that has an
  entry and no blocker registered, \<open>go n\<close> sets the index to \<open>index + n\<close> clamped (0 when
  it is below 0, \<open>length entries - 1\<close> when it is above, \<open>index + n\<close> otherwise) and the
  location to the entry there, and then calls the listeners. With bystanders that is what
  the call leaves. \<open>go\<close> throws nothing of its own: it returns when the listeners return.
\<close>

theorem go_clamps_index:
  assumes ne: "entries h \<noteq> []" and nb: "blockers h = []"
  shows "(let c = (if index h + n < 0 then 0
                  else if index h + n > int (length (entries h)) - 1 then int (length (entries h)) - 1
                  else index h + n)
         in 0 \<le> c \<and> c \<le> int (length (entries h)) - 1
          \<and> go R n h =
              call (invoke_handler R ListenerCalled) (listeners h)
                (Update Pop (Some (entries h ! nat c)))
                (h\<lparr>index := c, action := Pop, location := Some (entries h ! nat c)\<rparr>)
          \<and> (bystander R \<longrightarrow>
                index (fst (go R n h)) = c
              \<and> location (fst (go R n h)) = Some (entries h ! nat c)
              \<and> entries (fst (go R n h)) = entries h)
          \<and> (returns R \<longrightarrow> snd (go R n h) = None))"
proof -
  define c where "c = (if index h + n < 0 then 0
                  else if index h + n > int (length (entries h)) - 1 then int (length (entries h)) - 1
                  else index h + n)"
  from ne have hi: "0 \<le> int (length (entries h)) - 1" by (cases "entries h") simp_all
  have cl: "clamp (index h + n) 0 (int (length (entries h)) - 1) = c"
    unfolding c_def by (rule clamp_explicit [OF hi])
  have bd: "0 \<le> c \<and> c \<le> int (length (entries h)) - 1"
    using clamp_bounds [OF hi, of "index h + n"] cl by simp
  then have ag: "array_get (entries h) c = Some (entries h ! nat c)"
    by (simp add: array_get_def)
  have g: "go R n h =
              call (invoke_handler R ListenerCalled) (listeners h)
                (Update Pop (Some (entries h ! nat c)))
                (h\<lparr>index := c, action := Pop, location := Some (entries h ! nat c)\<rparr>)"
    unfolding go_free [OF nb] cl ag by simp
  have f: "index (fst (go R n h)) = c
              \<and> location (fst (go R n h)) = Some (entries h ! nat c)
              \<and> entries (fst (go R n h)) = entries h"
    if bys: "bystander R"
    unfolding g using call_bystander [OF bys, where mk = ListenerCalled] by simp
  have r: "snd (go R n h) = None" if rt: "returns R"
    unfolding g by (rule call_returns [OF rt])
  from bd g f r show ?thesis unfolding Let_def c_def [symmetric] by blast
qed

theorem go_clamps_index_witness:
  "entries sample \<noteq> [] \<and> blockers sample = [] \<and> bystander quiet \<and> returns quiet
   \<and> index (fst (go quiet 1000 sample)) = 1
   \<and> map_option pathname (location (fst (go quiet 1000 sample))) = Some ''/b''
   \<and> snd (go quiet 1000 sample) = None
   \<and> index (fst (go quiet 1 sample)) = 1
   \<and> entries sample_at_b \<noteq> [] \<and> blockers sample_at_b = []
   \<and> index (fst (go quiet (- 1000) sample_at_b)) = 0
   \<and> map_option pathname (location (fst (go quiet (- 1000) sample_at_b))) = Some ''/a''"
proof -
  have i0: "index sample = 0" "int (length (entries sample)) - 1 = 1"
    by (simp_all add: eval_simps)
  have i1: "index sample_at_b = 1" "int (length (entries sample_at_b)) - 1 = 1"
    by (simp_all add: eval_simps)
  have c1: "(if index sample + 1000 < 0 then 0
             else if index sample + 1000 > int (length (entries sample)) - 1
                  then int (length (entries sample)) - 1
                  else index sample + 1000) = 1"
    by (simp add: i0)
  have c2: "(if index sample + 1 < 0 then 0
             else if index sample + 1 > int (length (entries sample)) - 1
                  then int (length (entries sample)) - 1
                  else index sample + 1) = 1"
    by (simp add: i0)
  have c3: "(if index sample_at_b + - 1000 < 0 then 0
             else if index sample_at_b + - 1000 > int (length (entries sample_at_b)) - 1
                  then int (length (entries sample_at_b)) - 1
                  else index sample_at_b + - 1000) = 0"
    by (simp add: i1)
  note t1 = go_clamps_index [OF sample_entries sample_blockers, where R = quiet and n = 1000,
      unfolded Let_def c1]
  note t2 = go_clamps_index [OF sample_entries sample_blockers, where R = quiet and n = 1,
      unfolded Let_def c2]
  note t3 = go_clamps_index [OF sample_at_b_entries sample_at_b_blockers, where R = quiet and n = "- 1000",
      unfolded Let_def c3]
  note f1 = t1 [THEN conjunct2, THEN conjunct2, THEN conjunct2, THEN conjunct1, rule_format,
      OF quiet_bystander]
  note r1 = t1 [THEN conjunct2, THEN conjunct2, THEN conjunct2, THEN conjunct2, rule_format,
      OF quiet_returns]
  note f2 = t2 [THEN conjunct2, THEN conjunct2, THEN conjunct2, THEN conjunct1, rule_format,
      OF quiet_bystander]
  note f3 = t3 [THEN conjunct2, THEN conjunct2, THEN conjunct2, THEN conjunct1, rule_format,
      OF quiet_bystander]
  have a: "index (fst (go quiet 1000 sample)) = 1" using f1 by simp
  have a2: "map_option pathname (location (fst (go quiet 1000 sample))) = Some ''/b''"
    using f1 by (simp add: eval_simps)
  have b: "index (fst (go quiet 1 sample)) = 1" using f2 by simp
  have d: "index (fst (go quiet (- 1000) sample_at_b)) = 0" using f3 by simp
  have d2: "map_option pathname (location (fst (go quiet (- 1000) sample_at_b))) = Some ''/a''"
    using f3 by (simp add: eval_simps)
  from sample_entries sample_blockers quiet_bystander quiet_returns a a2 r1 b d d2
    sample_at_b_entries sample_at_b_blockers
  show ?thesis by simp
qed

text \<open>
  On a history created with no entries \<open>go 5\<close> leaves the index -1 and no location. With
  blocker 7 registered \<open>go 1\<close> from index 0 of two entries leaves the index 0. The
  exception of a throwing listener leaves \<open>go\<close>.
\<close>

theorem go_clamps_index_counterexample:
  "index (fst (go quiet 5 empty_history)) = - 1
   \<and> location (fst (go quiet 5 empty_history)) = None
   \<and> entries (fst (go quiet 5 empty_history)) = []
   \<and> index guarded = 0 \<and> length (entries guarded) = 2
   \<and> index (fst (go quiet 1 guarded)) = 0
   \<and> snd (go (callback (Suc 0) throwing) 1 (listen 3 sample)) = Some Thrown"
  by (simp add: call_simps eval_simps)




text \<open>
  Claim C8. The candidate location of \<open>push\<close> and \<open>replace\<close> is
  \<open>getNextLocation r current to st\<close>: it is what an unblocked call commits and hands to the
  listeners, and what a blocked call hands to the blockers. Its key is the key generated
  from the random draw \<open>r\<close> of this call and does not depend on the key of the current
  location; its state is the argument; each of pathname, search and hash is the piece of
  \<open>to\<close> when \<open>to\<close> has it and the field of the current location otherwise.
\<close>

theorem next_location_fresh_key:
  assumes c: "cursor_in_range h" and l: "location h = Some current"
  shows "key (getNextLocation r current to st) = createKey r
   \<and> getNextLocation r (current\<lparr>key := k\<rparr>) to st = getNextLocation r current to st
   \<and> pathname (getNextLocation r current to st)
       = (case pp_pathname (to_pieces to) of None \<Rightarrow> pathname current | Some v \<Rightarrow> v)
   \<and> search (getNextLocation r current to st)
       = (case pp_search (to_pieces to) of None \<Rightarrow> search current | Some v \<Rightarrow> v)
   \<and> hash (getNextLocation r current to st)
       = (case pp_hash (to_pieces to) of None \<Rightarrow> hash current | Some v \<Rightarrow> v)
   \<and> state (getNextLocation r current to st) = st
   \<and> (if blockers h = [] then
         push R r to st h =
           call (invoke_handler R ListenerCalled) (listeners h)
             (Update Push (Some (getNextLocation r current to st)))
             (h\<lparr>index := index h + 1,
                entries := take (nat (index h) + 1) (entries h) @ [getNextLocation r current to st],
                action := Push,
                location := Some (getNextLocation r current to st)\<rparr>)
       else
         push R r to st h =
           call (invoke_handler R BlockerCalled) (blockers h)
             (Transition Push (Some (getNextLocation r current to st)) (RetryPush to st)) h)
   \<and> (if blockers h = [] then
         replace R r to st h =
           call (invoke_handler R ListenerCalled) (listeners h)
             (Update Replace (Some (getNextLocation r current to st)))
             (h\<lparr>entries := (entries h)[nat (index h) := getNextLocation r current to st],
                action := Replace,
                location := Some (getNextLocation r current to st)\<rparr>)
       else
         replace R r to st h =
           call (invoke_handler R BlockerCalled) (blockers h)
             (Transition Replace (Some (getNextLocation r current to st)) (RetryReplace to st)) h)
   \<and> (bystander R \<longrightarrow>
         (if blockers h = [] then
            location (fst (push R r to st h)) = Some (getNextLocation r current to st)
          \<and> location (fst (replace R r to st h)) = Some (getNextLocation r current to st)
          else
            (returns R \<longrightarrow>
               trace (fst (push R r to st h)) = trace h @ map (\<lambda>b. BlockerCalled b
                  (Transition Push (Some (getNextLocation r current to st)) (RetryPush to st))) (blockers h)
             \<and> trace (fst (replace R r to st h)) = trace h @ map (\<lambda>b. BlockerCalled b
                  (Transition Replace (Some (getNextLocation r current to st)) (RetryReplace to st))) (blockers h))))"
proof -
  note n = cursor_nat [OF c]
  from n have b: "0 \<le> index h" "index h < int (length (entries h))" by simp_all
  from b have "0 \<le> index h + 1" "index h + 1 \<le> int (length (entries h))" by simp_all
  then have sp: "splice (index h + 1) (int (length (entries h))) x (entries h)
      = take (nat (index h) + 1) (entries h) @ [x]" for x
    using n by (simp add: splice_tail)
  have pure: "key (getNextLocation r current to st) = createKey r
   \<and> getNextLocation r (current\<lparr>key := k\<rparr>) to st = getNextLocation r current to st
   \<and> pathname (getNextLocation r current to st)
       = (case pp_pathname (to_pieces to) of None \<Rightarrow> pathname current | Some v \<Rightarrow> v)
   \<and> search (getNextLocation r current to st)
       = (case pp_search (to_pieces to) of None \<Rightarrow> search current | Some v \<Rightarrow> v)
   \<and> hash (getNextLocation r current to st)
       = (case pp_hash (to_pieces to) of None \<Rightarrow> hash current | Some v \<Rightarrow> v)
   \<and> state (getNextLocation r current to st) = st"
    by (auto simp: getNextLocation_def Let_def split: option.splits)
  show ?thesis
  proof (cases "blockers h = []")
    case True
    have p: "push R r to st h =
           call (invoke_handler R ListenerCalled) (listeners h)
             (Update Push (Some (getNextLocation r current to st)))
             (h\<lparr>index := index h + 1,
                entries := take (nat (index h) + 1) (entries h) @ [getNextLocation r current to st],
                action := Push,
                location := Some (getNextLocation r current to st)\<rparr>)"
      unfolding push_free [OF l True] sp by simp
    have q: "replace R r to st h =
           call (invoke_handler R ListenerCalled) (listeners h)
             (Update Replace (Some (getNextLocation r current to st)))
             (h\<lparr>entries := (entries h)[nat (index h) := getNextLocation r current to st],
                action := Replace,
                location := Some (getNextLocation r current to st)\<rparr>)"
      by (rule replace_free [OF l True b])
    have f: "location (fst (push R r to st h)) = Some (getNextLocation r current to st)
          \<and> location (fst (replace R r to st h)) = Some (getNextLocation r current to st)"
      if bys: "bystander R"
      unfolding p q using call_bystander [OF bys, where mk = ListenerCalled] by simp
    from pure p q f True show ?thesis by simp
  next
    case False
    have p: "push R r to st h =
           call (invoke_handler R BlockerCalled) (blockers h)
             (Transition Push (Some (getNextLocation r current to st)) (RetryPush to st)) h"
      by (rule push_blocked [OF l False])
    have q: "replace R r to st h =
           call (invoke_handler R BlockerCalled) (blockers h)
             (Transition Replace (Some (getNextLocation r current to st)) (RetryReplace to st)) h"
      by (rule replace_blocked [OF l False])
    have f: "trace (fst (push R r to st h)) = trace h @ map (\<lambda>b. BlockerCalled b
                  (Transition Push (Some (getNextLocation r current to st)) (RetryPush to st))) (blockers h)
             \<and> trace (fst (replace R r to st h)) = trace h @ map (\<lambda>b. BlockerCalled b
                  (Transition Replace (Some (getNextLocation r current to st)) (RetryReplace to st))) (blockers h)"
      if bys: "bystander R" and rt: "returns R"
      unfolding p q using call_bystander_returns [OF bys rt, where mk = BlockerCalled] by simp
    from pure p q f False show ?thesis by simp
  qed
qed

theorem next_location_fresh_key_witness:
  "cursor_in_range sample \<and> bystander quiet
   \<and> map_option key (location sample) = Some ''k3yq8w2b''
   \<and> (\<exists>current. location sample = Some current
        \<and> getNextLocation ''0.zzzzzzzzzz'' current (Path ''?q=1'') None
            = \<lparr>pathname = ''/a'', search = ''?q=1'', hash = [], state = None, key = ''zzzzzzzz''\<rparr>
        \<and> location (fst (push quiet ''0.zzzzzzzzzz'' (Path ''?q=1'') None sample))
            = Some (getNextLocation ''0.zzzzzzzzzz'' current (Path ''?q=1'') None))"
proof -
  define current :: "unit Location" where
    "current = \<lparr>pathname = ''/a'', search = [], hash = [], state = None, key = ''k3yq8w2b''\<rparr>"
  have l: "location sample = Some current" by (simp add: current_def eval_simps)
  have k: "map_option key (location sample) = Some ''k3yq8w2b''" by (simp add: l current_def)
  note t = next_location_fresh_key [OF sample_cursor l, where R = quiet and r = "''0.zzzzzzzzzz''"
      and to = "Path ''?q=1''" and st = None and k = "[]"]
  note f = t [THEN conjunct2, THEN conjunct2, THEN conjunct2, THEN conjunct2, THEN conjunct2,
      THEN conjunct2, THEN conjunct2, THEN conjunct2, rule_format, OF quiet_bystander]
  have v: "getNextLocation ''0.zzzzzzzzzz'' current (Path ''?q=1'') None
            = \<lparr>pathname = ''/a'', search = ''?q=1'', hash = [], state = None, key = ''zzzzzzzz''\<rparr>"
    by (simp add: current_def eval_simps)
  from f sample_blockers
  have p: "location (fst (push quiet ''0.zzzzzzzzzz'' (Path ''?q=1'') None sample))
            = Some (getNextLocation ''0.zzzzzzzzzz'' current (Path ''?q=1'') None)"
    by simp
  from sample_cursor quiet_bystander k l v p show ?thesis by blast
qed

text \<open>
  Claim C10, as the code has it. For a memory history created with initial entries that
  are not the empty array (and any initial index), after every sequence of calls of
  \<open>push\<close>, \<open>replace\<close>, \<open>go\<close>, \<open>back\<close>, \<open>forward\<close>, \<open>listen\<close>, \<open>block\<close>, their removing
  functions and \<open>retry\<close>, made by the client or by handlers inside their callbacks to any
  depth, and whether or not a call is left by an exception,
  \<open>0 \<le> index \<le> length entries - 1\<close> and the location is \<open>entries[index]\<close>.
\<close>

theorem memory_cursor_invariant:
  assumes "initialEntries \<noteq> Some []"
    and "h = run (callback d B) cs (createMemoryHistory rand initialEntries initialIndex)"
  shows "0 \<le> index h \<and> index h \<le> int (length (entries h)) - 1
      \<and> location h = array_get (entries h) (index h)
      \<and> location h = Some (entries h ! nat (index h))"
proof -
  have c: "cursor_in_range h"
    unfolding assms(2) by (rule run_keeps_cursor [OF createMemoryHistory_cursor [OF assms(1)]])
  from cursor_nat [OF c] c show ?thesis
    by (simp add: array_get_def cursor_in_range_def)
qed

theorem memory_cursor_invariant_witness:
  "Some [Path ''/a'', Path ''/b''] \<noteq> Some []
   \<and> 0 \<le> index (run (callback (Suc (Suc 0)) letting_through)
         [CallListen 3, CallBlock 7, CallPush ''0.zzzzzzzzzz'' (Path ''/c'') None, CallGo (- 5), CallForward] sample)
   \<and> index (run (callback (Suc (Suc 0)) letting_through)
         [CallListen 3, CallBlock 7, CallPush ''0.zzzzzzzzzz'' (Path ''/c'') None, CallGo (- 5), CallForward] sample)
      \<le> int (length (entries (run (callback (Suc (Suc 0)) letting_through)
         [CallListen 3, CallBlock 7, CallPush ''0.zzzzzzzzzz'' (Path ''/c'') None, CallGo (- 5), CallForward] sample))) - 1
   \<and> index (run (callback (Suc (Suc 0)) letting_through)
         [CallListen 3, CallBlock 7, CallPush ''0.zzzzzzzzzz'' (Path ''/c'') None, CallGo (- 5), CallForward] sample) = 1"
proof -
  have ne: "Some [Path ''/a'', Path ''/b''] \<noteq> Some []" by simp
  note t = memory_cursor_invariant [OF ne refl, where d = "Suc (Suc 0)" and B = letting_through
      and cs = "[CallListen 3, CallBlock 7, CallPush ''0.zzzzzzzzzz'' (Path ''/c'') None, CallGo (- 5), CallForward]"
      and rand = sample_rand and initialIndex = None]
  have v: "index (run (callback (Suc (Suc 0)) letting_through)
         [CallListen 3, CallBlock 7, CallPush ''0.zzzzzzzzzz'' (Path ''/c'') None, CallGo (- 5), CallForward] sample) = 1"
    by (simp add: call_simps eval_simps)
  from ne t v show ?thesis by simp
qed

text \<open>
  With \<open>initialEntries = []\<close> the upper bound of the clamp is -1: the index is -1 and the
  location is \<open>undefined\<close>.
\<close>

theorem empty_entries_counterexample:
  "index empty_history = - 1 \<and> location empty_history = None"
  by (simp add: createMemoryHistory_def Let_def clamp_def array_get_def)

text \<open>
  Claim C2, as the code has it. On a memory history whose cursor is in range. With no
  blocker registered, \<open>push\<close>, \<open>replace\<close> and \<open>go\<close> set the cursor to the candidate and
  then call the listeners; with handlers that are bystanders and return, every registered
  listener is called once, with the update made of the new action and location. With a
  blocker registered the call does nothing but call the blockers with the transition whose
  retry is this call; when the blockers are bystanders (none calls \<open>retry\<close> or navigates
  inside its callback) the entries and the cursor are unchanged and the trace gains calls
  of blockers only. The retry of a transition is the same call made again: it commits one
  update when no blocker is registered at that moment, and is vetoed again while one is.
\<close>

theorem blocking_protocol:
  assumes c: "cursor_in_range h"
  shows "retry R r (RetryPush to st) h = push R r to st h
   \<and> retry R r (RetryReplace to st) h = replace R r to st h
   \<and> retry R r (RetryGo n) h = go R n h
   \<and> (blockers h = [] \<longrightarrow>
         push R r to st h =
           call (invoke_handler R ListenerCalled) (listeners h)
             (Update Push (Some (getNextLocation r (entries h ! nat (index h)) to st)))
             (h\<lparr>index := index h + 1,
                entries := take (nat (index h) + 1) (entries h)
                             @ [getNextLocation r (entries h ! nat (index h)) to st],
                action := Push,
                location := Some (getNextLocation r (entries h ! nat (index h)) to st)\<rparr>)
       \<and> replace R r to st h =
           call (invoke_handler R ListenerCalled) (listeners h)
             (Update Replace (Some (getNextLocation r (entries h ! nat (index h)) to st)))
             (h\<lparr>entries := (entries h)[nat (index h) := getNextLocation r (entries h ! nat (index h)) to st],
                action := Replace,
                location := Some (getNextLocation r (entries h ! nat (index h)) to st)\<rparr>)
       \<and> (let c = (if index h + n < 0 then 0
                    else if index h + n > int (length (entries h)) - 1 then int (length (entries h)) - 1
                    else index h + n)
          in go R n h =
              call (invoke_handler R ListenerCalled) (listeners h)
                (Update Pop (Some (entries h ! nat c)))
                (h\<lparr>index := c, action := Pop, location := Some (entries h ! nat c)\<rparr>)))
   \<and> (blockers h = [] \<and> bystander R \<longrightarrow>
         action (fst (push R r to st h)) = Push
       \<and> location (fst (push R r to st h)) = Some (getNextLocation r (entries h ! nat (index h)) to st)
       \<and> action (fst (replace R r to st h)) = Replace
       \<and> location (fst (replace R r to st h)) = Some (getNextLocation r (entries h ! nat (index h)) to st)
       \<and> action (fst (go R n h)) = Pop
       \<and> location (fst (go R n h)) = array_get (entries h) (index (fst (go R n h))))
   \<and> (blockers h = [] \<and> bystander R \<and> returns R \<longrightarrow>
         trace (fst (retry R r rt h)) = trace h @ map (\<lambda>f. ListenerCalled f
            (Update (action (fst (retry R r rt h))) (location (fst (retry R r rt h))))) (listeners h)
       \<and> snd (retry R r rt h) = None)
   \<and> (blockers h \<noteq> [] \<longrightarrow>
         push R r to st h =
           call (invoke_handler R BlockerCalled) (blockers h)
             (Transition Push (Some (getNextLocation r (entries h ! nat (index h)) to st)) (RetryPush to st)) h
       \<and> replace R r to st h =
           call (invoke_handler R BlockerCalled) (blockers h)
             (Transition Replace (Some (getNextLocation r (entries h ! nat (index h)) to st)) (RetryReplace to st)) h
       \<and> (let c = (if index h + n < 0 then 0
                    else if index h + n > int (length (entries h)) - 1 then int (length (entries h)) - 1
                    else index h + n)
          in go R n h =
              call (invoke_handler R BlockerCalled) (blockers h)
                (Transition Pop (Some (entries h ! nat c)) (RetryGo n)) h))
   \<and> (blockers h \<noteq> [] \<and> bystander R \<longrightarrow>
         entries (fst (retry R r rt h)) = entries h
       \<and> index (fst (retry R r rt h)) = index h
       \<and> action (fst (retry R r rt h)) = action h
       \<and> location (fst (retry R r rt h)) = location h
       \<and> (\<exists>tx k. k \<le> length (blockers h)
            \<and> trace (fst (retry R r rt h)) = trace h @ map (\<lambda>b. BlockerCalled b tx) (take k (blockers h))))"
proof -
  note m = cursor_nat [OF c]
  from m have l: "location h = Some (entries h ! nat (index h))" by simp
  from m have b: "0 \<le> index h" "index h < int (length (entries h))" by simp_all
  from b have "0 \<le> index h + 1" "index h + 1 \<le> int (length (entries h))" by simp_all
  then have sp: "splice (index h + 1) (int (length (entries h))) x (entries h)
      = take (nat (index h) + 1) (entries h) @ [x]" for x
    using m by (simp add: splice_tail)
  define nl where "nl = getNextLocation r (entries h ! nat (index h)) to st"
  define cc where "cc = (\<lambda>n. if index h + n < 0 then 0
                    else if index h + n > int (length (entries h)) - 1 then int (length (entries h)) - 1
                    else index h + n)"
  from m have hi: "0 \<le> int (length (entries h)) - 1" by simp
  have cl: "clamp (index h + j) 0 (int (length (entries h)) - 1) = cc j" for j
    unfolding cc_def by (rule clamp_explicit [OF hi])
  have bd: "0 \<le> cc j \<and> cc j \<le> int (length (entries h)) - 1" for j
    using clamp_bounds [OF hi, of "index h + j"] cl by simp
  then have ag: "array_get (entries h) (cc j) = Some (entries h ! nat (cc j))" for j
    using bd [of j] by (simp add: array_get_def)
  have rs: "retry R r (RetryPush to st) h = push R r to st h
   \<and> retry R r (RetryReplace to st) h = replace R r to st h
   \<and> retry R r (RetryGo n) h = go R n h"
    by (simp add: retry_def)
  have pf: "push R r' to' st' h =
           call (invoke_handler R ListenerCalled) (listeners h)
             (Update Push (Some (getNextLocation r' (entries h ! nat (index h)) to' st')))
             (h\<lparr>index := index h + 1,
                entries := take (nat (index h) + 1) (entries h)
                             @ [getNextLocation r' (entries h ! nat (index h)) to' st'],
                action := Push,
                location := Some (getNextLocation r' (entries h ! nat (index h)) to' st')\<rparr>)"
    if nb: "blockers h = []" for r' to' st'
    unfolding push_free [OF l nb] sp by simp
  have qf: "replace R r' to' st' h =
           call (invoke_handler R ListenerCalled) (listeners h)
             (Update Replace (Some (getNextLocation r' (entries h ! nat (index h)) to' st')))
             (h\<lparr>entries := (entries h)[nat (index h) := getNextLocation r' (entries h ! nat (index h)) to' st'],
                action := Replace,
                location := Some (getNextLocation r' (entries h ! nat (index h)) to' st')\<rparr>)"
    if nb: "blockers h = []" for r' to' st'
    by (rule replace_free [OF l nb b])
  have gf: "go R j h =
              call (invoke_handler R ListenerCalled) (listeners h)
                (Update Pop (Some (entries h ! nat (cc j))))
                (h\<lparr>index := cc j, action := Pop, location := Some (entries h ! nat (cc j))\<rparr>)"
    if nb: "blockers h = []" for j
    unfolding go_free [OF nb] cl ag by simp
  have pb: "push R r' to' st' h =
           call (invoke_handler R BlockerCalled) (blockers h)
             (Transition Push (Some (getNextLocation r' (entries h ! nat (index h)) to' st')) (RetryPush to' st')) h"
    if bl: "blockers h \<noteq> []" for r' to' st'
    by (rule push_blocked [OF l bl])
  have qb: "replace R r' to' st' h =
           call (invoke_handler R BlockerCalled) (blockers h)
             (Transition Replace (Some (getNextLocation r' (entries h ! nat (index h)) to' st')) (RetryReplace to' st')) h"
    if bl: "blockers h \<noteq> []" for r' to' st'
    by (rule replace_blocked [OF l bl])
  have gb: "go R j h =
              call (invoke_handler R BlockerCalled) (blockers h)
                (Transition Pop (Some (entries h ! nat (cc j))) (RetryGo j)) h"
    if bl: "blockers h \<noteq> []" for j
    unfolding go_blocked [OF bl] cl ag by simp
  have A: "push R r to st h =
           call (invoke_handler R ListenerCalled) (listeners h)
             (Update Push (Some (getNextLocation r (entries h ! nat (index h)) to st)))
             (h\<lparr>index := index h + 1,
                entries := take (nat (index h) + 1) (entries h)
                             @ [getNextLocation r (entries h ! nat (index h)) to st],
                action := Push,
                location := Some (getNextLocation r (entries h ! nat (index h)) to st)\<rparr>)
       \<and> replace R r to st h =
           call (invoke_handler R ListenerCalled) (listeners h)
             (Update Replace (Some (getNextLocation r (entries h ! nat (index h)) to st)))
             (h\<lparr>entries := (entries h)[nat (index h) := getNextLocation r (entries h ! nat (index h)) to st],
                action := Replace,
                location := Some (getNextLocation r (entries h ! nat (index h)) to st)\<rparr>)
       \<and> (let c = (if index h + n < 0 then 0
                    else if index h + n > int (length (entries h)) - 1 then int (length (entries h)) - 1
                    else index h + n)
          in go R n h =
              call (invoke_handler R ListenerCalled) (listeners h)
                (Update Pop (Some (entries h ! nat c)))
                (h\<lparr>index := c, action := Pop, location := Some (entries h ! nat c)\<rparr>))"
    if nb: "blockers h = []"
    using pf [OF nb, of r to st] qf [OF nb, of r to st] gf [OF nb, of n]
    unfolding Let_def cc_def by blast
  have A1: "action (fst (push R r to st h)) = Push
       \<and> location (fst (push R r to st h)) = Some (getNextLocation r (entries h ! nat (index h)) to st)
       \<and> action (fst (replace R r to st h)) = Replace
       \<and> location (fst (replace R r to st h)) = Some (getNextLocation r (entries h ! nat (index h)) to st)
       \<and> action (fst (go R n h)) = Pop
       \<and> location (fst (go R n h)) = array_get (entries h) (index (fst (go R n h)))"
    if nb: "blockers h = []" and bys: "bystander R"
    unfolding pf [OF nb] qf [OF nb] gf [OF nb]
    using call_bystander [OF bys, where mk = ListenerCalled] ag by simp
  have A2: "trace (fst (retry R r rt h)) = trace h @ map (\<lambda>f. ListenerCalled f
            (Update (action (fst (retry R r rt h))) (location (fst (retry R r rt h))))) (listeners h)
       \<and> snd (retry R r rt h) = None"
    if nb: "blockers h = []" and bys: "bystander R" and rt: "returns R"
  proof (cases rt)
    case (RetryPush to' st')
    show ?thesis unfolding RetryPush retry_def Retry.case pf [OF nb]
      using call_bystander [OF bys, where mk = ListenerCalled]
        call_bystander_returns [OF bys rt, where mk = ListenerCalled] by simp
  next
    case (RetryReplace to' st')
    show ?thesis unfolding RetryReplace retry_def Retry.case qf [OF nb]
      using call_bystander [OF bys, where mk = ListenerCalled]
        call_bystander_returns [OF bys rt, where mk = ListenerCalled] by simp
  next
    case (RetryGo j)
    show ?thesis unfolding RetryGo retry_def Retry.case gf [OF nb]
      using call_bystander [OF bys, where mk = ListenerCalled]
        call_bystander_returns [OF bys rt, where mk = ListenerCalled] by simp
  qed
  have B: "push R r to st h =
           call (invoke_handler R BlockerCalled) (blockers h)
             (Transition Push (Some (getNextLocation r (entries h ! nat (index h)) to st)) (RetryPush to st)) h
       \<and> replace R r to st h =
           call (invoke_handler R BlockerCalled) (blockers h)
             (Transition Replace (Some (getNextLocation r (entries h ! nat (index h)) to st)) (RetryReplace to st)) h
       \<and> (let c = (if index h + n < 0 then 0
                    else if index h + n > int (length (entries h)) - 1 then int (length (entries h)) - 1
                    else index h + n)
          in go R n h =
              call (invoke_handler R BlockerCalled) (blockers h)
                (Transition Pop (Some (entries h ! nat c)) (RetryGo n)) h)"
    if bl: "blockers h \<noteq> []"
    using pb [OF bl, of r to st] qb [OF bl, of r to st] gb [OF bl, of n]
    unfolding Let_def cc_def by blast
  have B1: "entries (fst (retry R r rt h)) = entries h
       \<and> index (fst (retry R r rt h)) = index h
       \<and> action (fst (retry R r rt h)) = action h
       \<and> location (fst (retry R r rt h)) = location h
       \<and> (\<exists>tx k. k \<le> length (blockers h)
            \<and> trace (fst (retry R r rt h)) = trace h @ map (\<lambda>b. BlockerCalled b tx) (take k (blockers h)))"
    if bl: "blockers h \<noteq> []" and bys: "bystander R"
  proof -
    have "\<exists>tx. retry R r rt h = call (invoke_handler R BlockerCalled) (blockers h) tx h"
      unfolding retry_def by (cases rt) (auto simp: pb [OF bl] qb [OF bl] gb [OF bl])
    then obtain tx where e: "retry R r rt h = call (invoke_handler R BlockerCalled) (blockers h) tx h"
      by blast
    from call_bystander [OF bys, where mk = BlockerCalled and hs = "blockers h" and arg = tx and h = h]
    show ?thesis unfolding e by blast
  qed
  from rs A A1 A2 B B1 show ?thesis by blast
qed

theorem blocking_protocol_witness:
  "cursor_in_range (listen 3 sample) \<and> blockers (listen 3 sample) = []
   \<and> bystander quiet \<and> returns quiet
   \<and> map_option pathname (location (fst (push quiet ''0.zzzzzzzzzz'' (Path ''/c'') None (listen 3 sample))))
       = Some ''/c''
   \<and> trace (fst (push quiet ''0.zzzzzzzzzz'' (Path ''/c'') None (listen 3 sample)))
       = [ListenerCalled 3 (Update Push
            (Some \<lparr>pathname = ''/c'', search = [], hash = [], state = None, key = ''zzzzzzzz''\<rparr>))]
   \<and> cursor_in_range guarded \<and> blockers guarded \<noteq> []
   \<and> location (fst (push quiet ''0.zzzzzzzzzz'' (Path ''/c'') None guarded)) = location guarded
   \<and> index (fst (push quiet ''0.zzzzzzzzzz'' (Path ''/c'') None guarded)) = index guarded
   \<and> action (fst (push quiet ''0.zzzzzzzzzz'' (Path ''/c'') None guarded)) = action guarded
   \<and> map_option pathname (location (fst
         (push (callback (Suc (Suc 0)) letting_through) ''0.zzzzzzzzzz'' (Path ''/c'') None guarded)))
       = Some ''/c''
   \<and> trace (fst (push (callback (Suc (Suc 0)) letting_through) ''0.zzzzzzzzzz'' (Path ''/c'') None guarded))
       = [BlockerCalled 7 (Transition Push
            (Some \<lparr>pathname = ''/c'', search = [], hash = [], state = None, key = ''zzzzzzzz''\<rparr>)
            (RetryPush (Path ''/c'') None)),
          ListenerCalled 3 (Update Push
            (Some \<lparr>pathname = ''/c'', search = [], hash = [], state = None, key = ''yyyyyyyy''\<rparr>))]"
proof -
  have gb: "blockers guarded \<noteq> []" by (simp add: guarded_blockers)
  note t1 = blocking_protocol [OF listening_cursor, where R = quiet and r = "''0.zzzzzzzzzz''"
      and to = "Path ''/c''" and st = None and n = 0 and rt = "RetryPush (Path ''/c'') None"]
  note a1 = t1 [THEN conjunct2, THEN conjunct2, THEN conjunct2, THEN conjunct2, THEN conjunct1,
      rule_format, OF conjI [OF listening_blockers quiet_bystander]]
  note a2 = t1 [THEN conjunct2, THEN conjunct2, THEN conjunct2, THEN conjunct2, THEN conjunct2,
      THEN conjunct1, rule_format, OF conjI [OF listening_blockers conjI [OF quiet_bystander quiet_returns]]]
  have p1: "map_option pathname (location (fst (push quiet ''0.zzzzzzzzzz'' (Path ''/c'') None (listen 3 sample))))
       = Some ''/c''"
    using a1 by (simp add: listen_def eval_simps)
  have p2: "trace (fst (push quiet ''0.zzzzzzzzzz'' (Path ''/c'') None (listen 3 sample)))
       = [ListenerCalled 3 (Update Push
            (Some \<lparr>pathname = ''/c'', search = [], hash = [], state = None, key = ''zzzzzzzz''\<rparr>))]"
    using a1 a2 unfolding t1 [THEN conjunct1]
    by (simp add: listen_def events_push_def eval_simps)
  note t2 = blocking_protocol [OF guarded_cursor, where R = quiet and r = "''0.zzzzzzzzzz''"
      and to = "Path ''/c''" and st = None and n = 0 and rt = "RetryPush (Path ''/c'') None"]
  note b1 = t2 [THEN conjunct2, THEN conjunct2, THEN conjunct2, THEN conjunct2, THEN conjunct2,
      THEN conjunct2, THEN conjunct2, rule_format, OF conjI [OF gb quiet_bystander],
      unfolded t2 [THEN conjunct1]]
  note t3 = blocking_protocol [OF guarded_cursor, where R = "callback (Suc (Suc 0)) letting_through"
      and r = "''0.zzzzzzzzzz''" and to = "Path ''/c''" and st = None and n = 0
      and rt = "RetryPush (Path ''/c'') None"]
  note e3 = t3 [THEN conjunct2, THEN conjunct2, THEN conjunct2, THEN conjunct2, THEN conjunct2,
      THEN conjunct2, THEN conjunct1, rule_format, OF gb, THEN conjunct1]
  have p3: "map_option pathname (location (fst
         (push (callback (Suc (Suc 0)) letting_through) ''0.zzzzzzzzzz'' (Path ''/c'') None guarded)))
       = Some ''/c''"
    unfolding e3 by (simp add: call_simps eval_simps)
  have p4: "trace (fst (push (callback (Suc (Suc 0)) letting_through) ''0.zzzzzzzzzz'' (Path ''/c'') None guarded))
       = [BlockerCalled 7 (Transition Push
            (Some \<lparr>pathname = ''/c'', search = [], hash = [], state = None, key = ''zzzzzzzz''\<rparr>)
            (RetryPush (Path ''/c'') None)),
          ListenerCalled 3 (Update Push
            (Some \<lparr>pathname = ''/c'', search = [], hash = [], state = None, key = ''yyyyyyyy''\<rparr>))]"
    unfolding e3 by (simp add: call_simps eval_simps)
  from listening_cursor listening_blockers quiet_bystander quiet_returns p1 p2 guarded_cursor gb b1 p3 p4
  show ?thesis by simp
qed

text \<open>
  With blocker 7 doing nothing, \<open>push\<close> is vetoed and the retry of its transition is
  vetoed too: the cursor is unchanged and the trace holds two calls of the blocker. With
  listeners 3 and 5 and no blocker, listener 3 throwing, \<open>push\<close> is left by the exception
  and listener 5 is not called. A blocker that unregisters itself and pushes \<open>/x\<close> never
  calls \<open>retry\<close>, and the cursor ends at \<open>/x\<close>. On a history created with no entries
  \<open>push\<close> throws and commits nothing.
\<close>

theorem blocking_protocol_counterexample:
  "blockers guarded = [7]
   \<and> index (run quiet [CallPush ''0.zzzzzzzzzz'' (Path ''/c'') None,
                        CallRetry ''0.yyyyyyyyyy'' (RetryPush (Path ''/c'') None)] guarded) = 0
   \<and> action (run quiet [CallPush ''0.zzzzzzzzzz'' (Path ''/c'') None,
                        CallRetry ''0.yyyyyyyyyy'' (RetryPush (Path ''/c'') None)] guarded) = Pop
   \<and> trace (run quiet [CallPush ''0.zzzzzzzzzz'' (Path ''/c'') None,
                        CallRetry ''0.yyyyyyyyyy'' (RetryPush (Path ''/c'') None)] guarded)
       = [BlockerCalled 7 (Transition Push
            (Some \<lparr>pathname = ''/c'', search = [], hash = [], state = None, key = ''zzzzzzzz''\<rparr>)
            (RetryPush (Path ''/c'') None)),
          BlockerCalled 7 (Transition Push
            (Some \<lparr>pathname = ''/c'', search = [], hash = [], state = None, key = ''yyyyyyyy''\<rparr>)
            (RetryPush (Path ''/c'') None))]
   \<and> blockers (listen 5 (listen 3 sample)) = []
   \<and> listeners (listen 5 (listen 3 sample)) = [3, 5]
   \<and> trace (fst (push (callback (Suc 0) throwing) ''0.zzzzzzzzzz'' (Path ''/c'') None (listen 5 (listen 3 sample))))
       = [ListenerCalled 3 (Update Push
            (Some \<lparr>pathname = ''/c'', search = [], hash = [], state = None, key = ''zzzzzzzz''\<rparr>))]
   \<and> snd (push (callback (Suc 0) throwing) ''0.zzzzzzzzzz'' (Path ''/c'') None (listen 5 (listen 3 sample)))
       = Some Thrown
   \<and> map_option pathname (location (fst
         (push (callback (Suc (Suc 0)) navigating) ''0.zzzzzzzzzz'' (Path ''/c'') None guarded)))
       = Some ''/x''
   \<and> blockers empty_history = []
   \<and> push quiet ''0.zzzzzzzzzz'' (Path ''/c'') None empty_history = (empty_history, Some TypeError)"
  by (simp add: call_simps eval_simps)

section \<open>Properties of the browser history\<close>




end
